theory Spec2Isabelle
  imports Complex_Main "HOL-Library.Word" "HOL-Library.Log_Nat"
begin

section \<open>The SDF atlas texture of \<open>TextBuilder.js\<close>\<close>

text \<open>
  The development follows \<open>packages/troika-three-text/src/TextBuilder.js\<close>. Integers of the
  source (glyph sizes, texture dimensions, slot indices, array offsets) are natural numbers;
  the non-integer quantities (the column count \<open>texImg.width / sdfGlyphSize\<close>, font-unit
  coordinates, margins) are rationals, so the arithmetic of the source is taken exactly and
  the rounding of IEEE doubles is not part of the model. Bytes of a \<open>Uint8Array\<close> are
  8-bit words.
\<close>

type_synonym byte = "8 word"

text \<open>The \<open>image\<close> of the atlas's \<open>DataTexture\<close>: its \<open>Uint8Array\<close> and its dimensions.\<close>

record texImg =
  data :: "byte list"
  width :: nat
  height :: nat

text \<open>
  Lines 154--157: \<open>new DataTexture(new Uint8Array(sdfGlyphSize * textureWidth * 4),
  textureWidth, sdfGlyphSize, ...)\<close>. A fresh \<open>Uint8Array\<close> is zero-filled.
\<close>

definition newTexture :: "nat \<Rightarrow> nat \<Rightarrow> texImg" where
  "newTexture sdfGlyphSize textureWidth =
     \<lparr>data = replicate (sdfGlyphSize * textureWidth * 4) 0,
      width = textureWidth,
      height = sdfGlyphSize\<rparr>"

subsection \<open>Growing the texture (lines 236--242)\<close>

text \<open>
  \<open>new Uint8Array(n)\<close> and \<open>target.set(source)\<close>, which copies \<open>source\<close> over the first
  \<open>source.length\<close> elements of \<open>target\<close>. (\<open>set\<close> raises a RangeError when the source is
  longer than the target; the only call site passes a target twice as long as the source.)
\<close>

definition new_Uint8Array :: "nat \<Rightarrow> byte list" where
  "new_Uint8Array n = replicate n 0"

definition Uint8Array_set :: "byte list \<Rightarrow> byte list \<Rightarrow> byte list" where
  "Uint8Array_set target source = source @ drop (length source) target"

text \<open>One iteration of the \<open>while\<close> body, lines 238--241.\<close>

definition biggerTexture :: "texImg \<Rightarrow> texImg" where
  "biggerTexture texImg =
     (let biggerArray = Uint8Array_set (new_Uint8Array (length (data texImg) * 2)) (data texImg)
      in texImg\<lparr>data := biggerArray, height := height texImg * 2\<rparr>)"

text \<open>
  The \<open>while\<close> loop of line 237. Doubling an empty array never reaches a positive length, so
  the loop need not terminate: \<open>None\<close> is the run that never leaves the loop.
\<close>

partial_function (option) growTexture :: "nat \<Rightarrow> nat \<Rightarrow> texImg \<Rightarrow> texImg option" where
  "growTexture sdfGlyphSize atlasIndex texImg =
     (if length (data texImg) < (atlasIndex + 1) * sdfGlyphSize * sdfGlyphSize
      then growTexture sdfGlyphSize atlasIndex (biggerTexture texImg)
      else Some texImg)"

declare growTexture.simps [code]

subsection \<open>Writing one glyph's SDF into its slot (lines 244--258)\<close>

text \<open>
  \<open>a % b\<close> on non-negative \<open>a\<close> and positive \<open>b\<close>, and element access on a \<open>Uint8Array\<close>:
  a store at a key that is not an integer inside the array is ignored, a load there gives
  \<open>undefined\<close>. Reading \<open>textureData\<close> past its end gives \<open>undefined\<close>, which a
  \<open>Uint8Array\<close> stores as 0.
\<close>

definition js_rem :: "rat \<Rightarrow> rat \<Rightarrow> rat" where
  "js_rem a b = a - b * of_int \<lfloor>a / b\<rfloor>"

definition valid_index :: "byte list \<Rightarrow> rat \<Rightarrow> bool" where
  "valid_index arr k \<longleftrightarrow> of_int \<lfloor>k\<rfloor> = k \<and> 0 \<le> k \<and> k < of_nat (length arr)"

definition store :: "byte list \<Rightarrow> rat \<Rightarrow> byte \<Rightarrow> byte list" where
  "store arr k v = (if valid_index arr k then arr[nat \<lfloor>k\<rfloor> := v] else arr)"

definition load :: "byte list \<Rightarrow> rat \<Rightarrow> byte option" where
  "load arr k = (if valid_index arr k then Some (arr ! nat \<lfloor>k\<rfloor>) else None)"

definition textureData_at :: "byte list \<Rightarrow> nat \<Rightarrow> byte" where
  "textureData_at textureData i = (if i < length textureData then textureData ! i else 0)"

text \<open>Lines 247--251.\<close>

definition squareIndex :: "nat \<Rightarrow> nat" where
  "squareIndex atlasIndex = atlasIndex div 4"

definition channel :: "nat \<Rightarrow> nat" where
  "channel atlasIndex = atlasIndex mod 4"

definition cols :: "nat \<Rightarrow> texImg \<Rightarrow> rat" where
  "cols sdfGlyphSize texImg = of_nat (width texImg) / of_nat sdfGlyphSize"

definition baseStartIndex :: "nat \<Rightarrow> texImg \<Rightarrow> nat \<Rightarrow> rat" where
  "baseStartIndex sdfGlyphSize texImg atlasIndex =
     of_int \<lfloor>of_nat (squareIndex atlasIndex) / cols sdfGlyphSize texImg\<rfloor>
         * of_nat (width texImg) * of_nat sdfGlyphSize * 4
       + js_rem (of_nat (squareIndex atlasIndex)) (cols sdfGlyphSize texImg) * of_nat sdfGlyphSize * 4
       + of_nat (channel atlasIndex)"

text \<open>Line 254 and the index expression of line 256.\<close>

definition rowStartIndex :: "nat \<Rightarrow> texImg \<Rightarrow> nat \<Rightarrow> nat \<Rightarrow> rat" where
  "rowStartIndex sdfGlyphSize texImg atlasIndex y =
     baseStartIndex sdfGlyphSize texImg atlasIndex + of_nat y * of_nat (width texImg) * 4"

definition texelIndex :: "nat \<Rightarrow> texImg \<Rightarrow> nat \<Rightarrow> nat \<Rightarrow> nat \<Rightarrow> rat" where
  "texelIndex sdfGlyphSize texImg atlasIndex y x =
     rowStartIndex sdfGlyphSize texImg atlasIndex y + of_nat x * 4"

text \<open>The inner loop over \<open>x\<close> (lines 255--257) and the outer loop over \<open>y\<close> (lines 252--258).\<close>

definition writeRow :: "nat \<Rightarrow> texImg \<Rightarrow> nat \<Rightarrow> byte list \<Rightarrow> byte list \<Rightarrow> nat \<Rightarrow> byte list" where
  "writeRow sdfGlyphSize texImg atlasIndex textureData arr y =
     foldl (\<lambda>arr x. store arr (texelIndex sdfGlyphSize texImg atlasIndex y x)
                       (textureData_at textureData (y * sdfGlyphSize + x)))
       arr [0..<sdfGlyphSize]"

definition insertGlyph :: "nat \<Rightarrow> texImg \<Rightarrow> nat \<Rightarrow> byte list \<Rightarrow> texImg" where
  "insertGlyph sdfGlyphSize texImg atlasIndex textureData =
     texImg\<lparr>data := foldl (writeRow sdfGlyphSize texImg atlasIndex textureData)
                        (data texImg) [0..<sdfGlyphSize]\<rparr>"

text \<open>The body of \<open>sdfResults.forEach\<close> (lines 233--259): grow, then insert.\<close>

definition writeSlot :: "nat \<Rightarrow> texImg \<Rightarrow> nat \<Rightarrow> byte list \<Rightarrow> texImg option" where
  "writeSlot sdfGlyphSize texImg atlasIndex textureData =
     (case growTexture sdfGlyphSize atlasIndex texImg of
        None \<Rightarrow> None
      | Some grown \<Rightarrow> Some (insertGlyph sdfGlyphSize grown atlasIndex textureData))"

text \<open>\<open>sdfResults.forEach\<close> itself: the results are written in list order.\<close>

fun writeSlots :: "nat \<Rightarrow> texImg \<Rightarrow> (nat \<times> byte list) list \<Rightarrow> texImg option" where
  "writeSlots sdfGlyphSize texImg [] = Some texImg"
| "writeSlots sdfGlyphSize texImg ((atlasIndex, textureData) # rest) =
     (case writeSlot sdfGlyphSize texImg atlasIndex textureData of
        None \<Rightarrow> None
      | Some texImg' \<Rightarrow> writeSlots sdfGlyphSize texImg' rest)"

text \<open>
  What a consumer of the texture finds in a slot: the squared \<open>sdfGlyphSize\<close> texels at the
  offsets the insertion loop addresses, row by row. The source has no reader of its own (the
  texture is sampled on the GPU); this observation uses the index expression of lines
  249--256 unchanged.
\<close>

definition readSlot :: "nat \<Rightarrow> texImg \<Rightarrow> nat \<Rightarrow> byte option list" where
  "readSlot sdfGlyphSize texImg atlasIndex =
     map (\<lambda>i. load (data texImg)
                 (texelIndex sdfGlyphSize texImg atlasIndex (i div sdfGlyphSize) (i mod sdfGlyphSize)))
       [0..<sdfGlyphSize * sdfGlyphSize]"

text \<open>Capacity in glyph slots: the buffer size over squared \<open>sdfGlyphSize\<close>.\<close>

definition slotCapacity :: "nat \<Rightarrow> texImg \<Rightarrow> nat" where
  "slotCapacity sdfGlyphSize texImg = length (data texImg) div (sdfGlyphSize * sdfGlyphSize)"

text \<open>
  A texture as the module builds it for a usable configuration: a positive glyph size that
  divides the texture width (both are documented as powers of two), a height that is a
  multiple of the glyph size, and four bytes per texel.
\<close>

definition texture_ok :: "nat \<Rightarrow> texImg \<Rightarrow> bool" where
  "texture_ok sdfGlyphSize texImg \<longleftrightarrow>
     0 < sdfGlyphSize \<and> 0 < width texImg \<and> sdfGlyphSize dvd width texImg
     \<and> 0 < height texImg \<and> sdfGlyphSize dvd height texImg
     \<and> length (data texImg) = 4 * width texImg * height texImg"

text \<open>
  The same offset in natural numbers, for a glyph size that divides the texture width (then
  the column count is the integer \<open>width div sdfGlyphSize\<close>).
\<close>

definition slotAddress :: "nat \<Rightarrow> nat \<Rightarrow> nat \<Rightarrow> nat \<Rightarrow> nat \<Rightarrow> nat" where
  "slotAddress sdfGlyphSize w atlasIndex y x =
     (atlasIndex div 4) div (w div sdfGlyphSize) * w * sdfGlyphSize * 4
       + (atlasIndex div 4) mod (w div sdfGlyphSize) * sdfGlyphSize * 4
       + atlasIndex mod 4
       + y * w * 4 + x * 4"

section \<open>Configuration (lines 13--60)\<close>

record config =
  defaultFontURL :: string
  sdfGlyphSize :: nat
  sdfMargin :: rat
  sdfExponent :: rat
  textureWidth :: nat

text \<open>The initial value of \<open>CONFIG\<close>, lines 13--19.\<close>

definition CONFIG_initial :: config where
  "CONFIG_initial =
     \<lparr>defaultFontURL = ''https://fonts.gstatic.com/s/roboto/v18/KFOmCnqEu92Fr1Mu4mxM.woff'',
      sdfGlyphSize = 64,
      sdfMargin = 1 / 16,
      sdfExponent = 9,
      textureWidth = 2048\<rparr>"

text \<open>
  The argument of \<open>configureTextBuilder\<close>: an object holding any of the five recognised keys.
  A key that is absent is \<open>None\<close>.
\<close>

record config_options =
  opt_defaultFontURL :: "string option"
  opt_sdfGlyphSize :: "nat option"
  opt_sdfMargin :: "rat option"
  opt_sdfExponent :: "rat option"
  opt_textureWidth :: "nat option"

text \<open>
  \<open>assign(CONFIG, config)\<close>, lines 322--329, on the five keys: every own key of the source
  object overwrites the key of that name in the target.
\<close>

definition assign :: "config \<Rightarrow> config_options \<Rightarrow> config" where
  "assign toObj fromObj =
     \<lparr>defaultFontURL = (case opt_defaultFontURL fromObj of Some v \<Rightarrow> v | None \<Rightarrow> defaultFontURL toObj),
      sdfGlyphSize = (case opt_sdfGlyphSize fromObj of Some v \<Rightarrow> v | None \<Rightarrow> sdfGlyphSize toObj),
      sdfMargin = (case opt_sdfMargin fromObj of Some v \<Rightarrow> v | None \<Rightarrow> sdfMargin toObj),
      sdfExponent = (case opt_sdfExponent fromObj of Some v \<Rightarrow> v | None \<Rightarrow> sdfExponent toObj),
      textureWidth = (case opt_textureWidth fromObj of Some v \<Rightarrow> v | None \<Rightarrow> textureWidth toObj)\<rparr>"

section \<open>Numbers\<close>

text \<open>
  The numbers of lines 189--198 and 224 are IEEE 754 doubles. A finite double is a rational
  number, and an arithmetic operation gives the exact result rounded to the nearest double,
  a tie going to the double with the even significand. \<open>exponent64 x\<close> is the floor of the
  binary logarithm of \<open>\<bar>x\<bar>\<close>; the doubles around \<open>x\<close> are the multiples of \<open>2\<close> to the power
  \<open>exponent64 x - 52\<close>, and of \<open>2\<close> to the power \<open>-1074\<close> in the subnormal range. There are no
  infinities here: a result of magnitude \<open>2 ^ 1024\<close> or more stands where the source has
  \<open>Infinity\<close>, and \<open>finite64\<close> holds of the others.
\<close>

definition exponent64 :: "rat \<Rightarrow> int" where
  "exponent64 x =
     (if 1 \<le> \<bar>x\<bar> then bitlen \<lfloor>\<bar>x\<bar>\<rfloor> - 1 else - bitlen (\<lceil>1 / \<bar>x\<bar>\<rceil> - 1))"

definition roundTiesToEven :: "rat \<Rightarrow> int" where
  "roundTiesToEven y =
     (let n = \<lfloor>y\<rfloor>; r = y - of_int n
      in if r < 1 / 2 then n else if 1 / 2 < r then n + 1 else if even n then n else n + 1)"

definition round64 :: "rat \<Rightarrow> rat" where
  "round64 x =
     (let ulp = 2 powi (max (exponent64 x) (- 1022) - 52)
      in of_int (roundTiesToEven (x / ulp)) * ulp)"

definition finite64 :: "rat \<Rightarrow> bool" where
  "finite64 x \<longleftrightarrow> \<bar>x\<bar> < 2 ^ 1024"

text \<open>The operators \<open>+\<close>, \<open>-\<close>, \<open>*\<close> and \<open>/\<close> on doubles (the divisor is not zero).\<close>

definition js_add :: "rat \<Rightarrow> rat \<Rightarrow> rat" where
  "js_add x y = round64 (x + y)"

definition js_sub :: "rat \<Rightarrow> rat \<Rightarrow> rat" where
  "js_sub x y = round64 (x - y)"

definition js_mul :: "rat \<Rightarrow> rat \<Rightarrow> rat" where
  "js_mul x y = round64 (x * y)"

definition js_div :: "rat \<Rightarrow> rat \<Rightarrow> rat" where
  "js_div x y = round64 (x / y)"

section \<open>Atlases and glyph allocation (lines 145--217)\<close>

text \<open>
  A rectangle \<open>[minX, minY, maxX, maxY]\<close> in font units, the entry \<open>{path, atlasIndex,
  sdfViewBox}\<close> kept per glyph, and the atlas \<open>{count, glyphs, sdfTexture}\<close> of lines 151--166.
  Glyph paths are opaque strings handed on to the rasterizer.
\<close>

type_synonym rect = "rat \<times> rat \<times> rat \<times> rat"

record glyphInfo =
  path :: string
  atlasIndex :: nat
  sdfViewBox :: rect

record atlas =
  count :: nat
  glyphs :: "nat \<rightharpoonup> glyphInfo"
  sdfTexture :: texImg
  needsUpdate :: bool

definition newAtlas :: "nat \<Rightarrow> nat \<Rightarrow> atlas" where
  "newAtlas glyphSize texWidth =
     \<lparr>count = 0, glyphs = Map.empty, sdfTexture = newTexture glyphSize texWidth,
      needsUpdate = False\<rparr>"

text \<open>
  What the typesetter resolves to (line 172 and \<open>result.glyphData\<close>); the fields that are
  only passed through to the callback are left out.
\<close>

record glyphDatum =
  glyphPath :: string
  pathBounds :: rect

record typesetResult =
  glyphIds :: "nat list"
  glyphPositions :: "rat list"
  fontSize :: rat
  unitsPerEm :: rat
  glyphData :: "nat \<rightharpoonup> glyphDatum"

datatype error = TypeError

text \<open>
  Lines 189--190, every operation rounded as the source rounds it (\<open>Math.max\<close> does not
  round). The division is the source's for a positive glyph size.
\<close>

definition fontUnitsMargin :: "config \<Rightarrow> nat \<Rightarrow> rect \<Rightarrow> rat" where
  "fontUnitsMargin cfg glyphSize bounds =
     (case bounds of (b0, b1, b2, b3) \<Rightarrow>
        js_mul (js_div (max (js_sub b2 b0) (js_sub b3 b1)) (of_nat glyphSize))
               (js_add (js_mul (sdfMargin cfg) (of_nat glyphSize)) (1 / 2)))"

text \<open>Lines 193--198.\<close>

definition expandBounds :: "rect \<Rightarrow> rat \<Rightarrow> rect" where
  "expandBounds bounds margin =
     (case bounds of (b0, b1, b2, b3) \<Rightarrow>
        (js_sub b0 margin, js_sub b1 margin, js_add b2 margin, js_add b3 margin))"

text \<open>
  Lines 180--203, the allocation step of the loop body. The result holds the atlas, the entry
  of the glyph and whether the entry was created by this call (then line 202 pushes it on
  \<open>neededSDFs\<close>). Destructuring \<open>result.glyphData[glyphId]\<close> raises a TypeError when the
  typesetter supplied no data for the glyph; this happens before the atlas is touched.
\<close>

definition allocateSlot ::
  "config \<Rightarrow> nat \<Rightarrow> (nat \<rightharpoonup> glyphDatum) \<Rightarrow> atlas \<Rightarrow> nat \<Rightarrow> error + (atlas \<times> glyphInfo \<times> bool)" where
  "allocateSlot cfg glyphSize gdata atl glyphId =
     (case glyphs atl glyphId of
        Some glyphInfo \<Rightarrow> Inr (atl, glyphInfo, False)
      | None \<Rightarrow>
          (case gdata glyphId of
             None \<Rightarrow> Inl TypeError
           | Some d \<Rightarrow>
               let margin = fontUnitsMargin cfg glyphSize (pathBounds d);
                   glyphInfo = \<lparr>path = glyphPath d, atlasIndex = count atl,
                                sdfViewBox = expandBounds (pathBounds d) margin\<rparr>
               in Inr (atl\<lparr>count := count atl + 1, glyphs := (glyphs atl)(glyphId \<mapsto> glyphInfo)\<rparr>,
                       glyphInfo, True)))"

text \<open>
  The state of the \<open>forEach\<close> loop of lines 179--217: the atlas, \<open>neededSDFs\<close>, the quad
  bounds written so far, \<open>positionsIdx\<close>, and the atlas indices that line 216 has put in place
  of the glyph ids. A coordinate is \<open>None\<close> when it is not a finite number (a position read
  past the end of \<open>glyphPositions\<close>, or a zero \<open>unitsPerEm\<close>).
\<close>

record loopState =
  loopAtlas :: atlas
  neededSDFs :: "glyphInfo list"
  glyphBounds :: "rat option list"
  positionsIdx :: nat
  atlasIndices :: "nat list"

definition fontSizeMult :: "typesetResult \<Rightarrow> rat option" where
  "fontSizeMult result =
     (if unitsPerEm result = 0 then None else Some (fontSize result / unitsPerEm result))"

definition position_at :: "rat list \<Rightarrow> nat \<Rightarrow> rat option" where
  "position_at positions i = (if i < length positions then Some (positions ! i) else None)"

definition quadCoord :: "rat option \<Rightarrow> rat \<Rightarrow> rat option \<Rightarrow> rat option" where
  "quadCoord pos v mult =
     (case pos of None \<Rightarrow> None
      | Some p \<Rightarrow> (case mult of None \<Rightarrow> None | Some m \<Rightarrow> Some (p + v * m)))"

definition glyphStep ::
  "config \<Rightarrow> nat \<Rightarrow> typesetResult \<Rightarrow> loopState \<Rightarrow> nat \<Rightarrow> error + loopState" where
  "glyphStep cfg glyphSize result st glyphId =
     (case allocateSlot cfg glyphSize (glyphData result) (loopAtlas st) glyphId of
        Inl e \<Rightarrow> Inl e
      | Inr (atl, glyphInfo, created) \<Rightarrow>
          (case sdfViewBox glyphInfo of (v0, v1, v2, v3) \<Rightarrow>
             let posX = position_at (glyphPositions result) (positionsIdx st);
                 posY = position_at (glyphPositions result) (positionsIdx st + 1);
                 mult = fontSizeMult result
             in Inr \<lparr>loopAtlas = atl,
                     neededSDFs = (if created then neededSDFs st @ [glyphInfo] else neededSDFs st),
                     glyphBounds = glyphBounds st
                        @ [quadCoord posX v0 mult, quadCoord posY v1 mult,
                           quadCoord posX v2 mult, quadCoord posY v3 mult],
                     positionsIdx = positionsIdx st + 2,
                     atlasIndices = atlasIndices st @ [atlasIndex glyphInfo]\<rparr>))"

text \<open>
  \<open>glyphIds.forEach\<close>: an exception leaves the loop with the state reached so far, and the
  allocations already made stay in the atlas.
\<close>

fun forEachGlyph ::
  "config \<Rightarrow> nat \<Rightarrow> typesetResult \<Rightarrow> loopState \<Rightarrow> nat list \<Rightarrow> loopState \<times> error option" where
  "forEachGlyph cfg glyphSize result st [] = (st, None)"
| "forEachGlyph cfg glyphSize result st (glyphId # rest) =
     (case glyphStep cfg glyphSize result st glyphId of
        Inl e \<Rightarrow> (st, Some e)
      | Inr st' \<Rightarrow> forEachGlyph cfg glyphSize result st' rest)"

text \<open>Lines 173--177 and 179: the loop of one request on its atlas.\<close>

definition requestLoop ::
  "config \<Rightarrow> nat \<Rightarrow> atlas \<Rightarrow> typesetResult \<Rightarrow> loopState \<times> error option" where
  "requestLoop cfg glyphSize atl result =
     forEachGlyph cfg glyphSize result
       \<lparr>loopAtlas = atl, neededSDFs = [], glyphBounds = [], positionsIdx = 0, atlasIndices = []\<rparr>
       (glyphIds result)"

text \<open>
  The loop is synchronous, so the loops of the requests that share an atlas run one after
  another, each to its end, whatever the order in which their typesetting completes. The
  lifetime of an atlas is the sequence of these loops.
\<close>

fun atlasLifetime ::
  "config \<Rightarrow> nat \<Rightarrow> atlas \<Rightarrow> typesetResult list \<Rightarrow> atlas \<times> (loopState \<times> error option) list" where
  "atlasLifetime cfg glyphSize atl [] = (atl, [])"
| "atlasLifetime cfg glyphSize atl (result # rest) =
     (let out = requestLoop cfg glyphSize atl result;
          (atl', outs) = atlasLifetime cfg glyphSize (loopAtlas (fst out)) rest
      in (atl', out # outs))"

text \<open>The glyph ids of a sequence in the order of their first occurrence.\<close>

fun firstSeenFrom :: "nat list \<Rightarrow> nat list \<Rightarrow> nat list" where
  "firstSeenFrom seen [] = seen"
| "firstSeenFrom seen (glyphId # rest) =
     firstSeenFrom (if glyphId \<in> set seen then seen else seen @ [glyphId]) rest"

definition firstSeen :: "nat list \<Rightarrow> nat list" where
  "firstSeen ids = firstSeenFrom [] ids"

section \<open>SDF generation and the request as a whole (lines 114--296)\<close>

text \<open>The arguments of \<open>generateSDFInWorker\<close>, line 225, and \<open>maxDist\<close>, line 224.\<close>

record sdfTask =
  taskWidth :: nat
  taskHeight :: nat
  taskPath :: string
  taskViewBox :: rect
  maxDistance :: rat
  taskExponent :: rat

definition maxDist :: "rect \<Rightarrow> rat" where
  "maxDist viewBox = (case viewBox of (v0, v1, v2, v3) \<Rightarrow> max (js_sub v2 v0) (js_sub v3 v1))"

definition sdfTaskOf :: "config \<Rightarrow> nat \<Rightarrow> glyphInfo \<Rightarrow> sdfTask" where
  "sdfTaskOf cfg glyphSize glyphInfo =
     \<lparr>taskWidth = glyphSize, taskHeight = glyphSize, taskPath = path glyphInfo,
      taskViewBox = sdfViewBox glyphInfo, maxDistance = maxDist (sdfViewBox glyphInfo),
      taskExponent = sdfExponent cfg\<rparr>"

text \<open>
  The arguments of a request, and the normalised arguments of lines 116--126. The colour
  ranges are normalised on the side and reach neither the atlas nor the glyph arrays; they
  are left out.
\<close>

record args =
  argFont :: "string option"
  argText :: string
  argSdfGlyphSize :: "nat option"

record parameters =
  font :: string
  paramText :: string
  paramSdfGlyphSize :: nat

text \<open>
  The collaborators: the DOM's URL resolution, the typesetter and the SDF generator in their
  workers. The two workers answer through thenables; here each is the function from its
  arguments to what it resolves with.
\<close>

record env =
  toAbsoluteURL :: "string \<Rightarrow> string"
  typesetInWorker :: "parameters \<Rightarrow> typesetResult"
  generateSDFInWorker :: "sdfTask \<Rightarrow> byte list"

text \<open>
  The module's variables: \<open>CONFIG\<close>, \<open>hasRequested\<close>, \<open>atlases\<close> (keyed by font and glyph
  size, the two parts of the key string of line 148), and two logs of what the module did to
  the outside: the \<open>console.warn\<close> messages and the calls of \<open>generateSDFInWorker\<close>.
\<close>

record module =
  CONFIG :: config
  hasRequested :: bool
  atlases :: "string \<times> nat \<rightharpoonup> atlas"
  warnings :: "string list"
  sdfCalls :: "sdfTask list"

definition initialModule :: module where
  "initialModule =
     \<lparr>CONFIG = CONFIG_initial, hasRequested = False, atlases = Map.empty,
      warnings = [], sdfCalls = []\<rparr>"

text \<open>Lines 54--60.\<close>

definition configureTextBuilder :: "module \<Rightarrow> config_options \<Rightarrow> module" where
  "configureTextBuilder m cfg =
     (if hasRequested m
      then m\<lparr>warnings := warnings m
                @ [''configureTextBuilder called after first font request; will be ignored.'']\<rparr>
      else m\<lparr>CONFIG := assign (CONFIG m) cfg\<rparr>)"

text \<open>Lines 121--126: \<open>a || b\<close> takes \<open>b\<close> when \<open>a\<close> is missing, empty or zero.\<close>

definition normalizeArgs :: "env \<Rightarrow> config \<Rightarrow> args \<Rightarrow> parameters" where
  "normalizeArgs e cfg a =
     \<lparr>font = toAbsoluteURL e
               (case argFont a of None \<Rightarrow> defaultFontURL cfg
                | Some f \<Rightarrow> if f = [] then defaultFontURL cfg else f),
      paramText = argText a,
      paramSdfGlyphSize =
        (case argSdfGlyphSize a of None \<Rightarrow> sdfGlyphSize cfg
         | Some n \<Rightarrow> if n = 0 then sdfGlyphSize cfg else n)\<rparr>"

text \<open>The result handed to the callback (lines 266--293), without the passed-through fields.\<close>

record renderInfo =
  infoParameters :: parameters
  infoTexture :: texImg
  infoSdfGlyphSize :: nat
  infoSdfExponent :: rat
  infoGlyphBounds :: "rat option list"
  glyphAtlasIndices :: "nat list"

text \<open>
  Lines 230--261: the results are copied into the texture in the order of \<open>neededSDFs\<close>, and
  the texture is flagged when there was anything to copy.
\<close>

definition copyResults :: "nat \<Rightarrow> atlas \<Rightarrow> (nat \<times> byte list) list \<Rightarrow> atlas option" where
  "copyResults glyphSize atl sdfResults =
     (if sdfResults = [] then Some atl
      else (case writeSlots glyphSize (sdfTexture atl) sdfResults of
              None \<Rightarrow> None
            | Some tex \<Rightarrow> Some (atl\<lparr>sdfTexture := tex, needsUpdate := True\<rparr>)))"

text \<open>
  The synchronous part of \<open>getTextRenderInfo\<close>, lines 115--168: the flag, the normalised
  arguments, and the atlas of the request, created when its key is new. The rest of the
  function runs later, in the continuations of the two thenables.
\<close>

definition issueRequest :: "env \<Rightarrow> module \<Rightarrow> args \<Rightarrow> module \<times> parameters \<times> atlas" where
  "issueRequest e m0 a =
     (let m1 = m0\<lparr>hasRequested := True\<rparr>;
          params = normalizeArgs e (CONFIG m1) a;
          glyphSize = paramSdfGlyphSize params;
          atlasKey = (font params, glyphSize);
          atl = (case atlases m1 atlasKey of
                   Some existing \<Rightarrow> existing
                 | None \<Rightarrow> newAtlas glyphSize (textureWidth (CONFIG m1)))
      in (m1\<lparr>atlases := (atlases m1)(atlasKey \<mapsto> atl)\<rparr>, params, atl))"

text \<open>
  \<open>getTextRenderInfo\<close>, run to the point where the callback is called, with no other call
  of the module in between. The outcome is \<open>None\<close> when the growth loop never ends;
  otherwise it is the module's state together with either the exception that ended the
  typesetting continuation (the callback is then never called) or the value the callback
  receives.
\<close>

definition getTextRenderInfo ::
  "env \<Rightarrow> module \<Rightarrow> args \<Rightarrow> (module \<times> (error + renderInfo)) option" where
  "getTextRenderInfo e m0 a =
     (let (m1, params, atl) = issueRequest e m0 a;
          glyphSize = paramSdfGlyphSize params;
          atlasKey = (font params, glyphSize);
          result = typesetInWorker e params;
          (st, thrown) = requestLoop (CONFIG m1) glyphSize atl result
      in case thrown of
           Some err \<Rightarrow> Some (m1\<lparr>atlases := (atlases m1)(atlasKey \<mapsto> loopAtlas st)\<rparr>, Inl err)
         | None \<Rightarrow>
             let tasks = map (sdfTaskOf (CONFIG m1) glyphSize) (neededSDFs st);
                 sdfResults = map (\<lambda>glyphInfo.
                     (atlasIndex glyphInfo,
                      generateSDFInWorker e (sdfTaskOf (CONFIG m1) glyphSize glyphInfo)))
                   (neededSDFs st)
             in (case copyResults glyphSize (loopAtlas st) sdfResults of
                   None \<Rightarrow> None
                 | Some atl' \<Rightarrow>
                     Some (m1\<lparr>atlases := (atlases m1)(atlasKey \<mapsto> atl'),
                              sdfCalls := sdfCalls m1 @ tasks\<rparr>,
                           Inr \<lparr>infoParameters = params,
                                infoTexture = sdfTexture atl',
                                infoSdfGlyphSize = glyphSize,
                                infoSdfExponent = sdfExponent (CONFIG m1),
                                infoGlyphBounds = glyphBounds st,
                                glyphAtlasIndices = atlasIndices st\<rparr>)))"

section \<open>Notions used in the statements\<close>

text \<open>
  The glyph ids requested over the lifetime of an atlas, the atlas at the end of the
  lifetime, and the entries pushed on \<open>neededSDFs\<close> by all the loops, in order.
\<close>

definition requestedIds :: "typesetResult list \<Rightarrow> nat list" where
  "requestedIds results = concat (map glyphIds results)"

definition finalAtlas :: "config \<Rightarrow> nat \<Rightarrow> atlas \<Rightarrow> typesetResult list \<Rightarrow> atlas" where
  "finalAtlas cfg glyphSize atl results = fst (atlasLifetime cfg glyphSize atl results)"

definition createdEntries :: "config \<Rightarrow> nat \<Rightarrow> atlas \<Rightarrow> typesetResult list \<Rightarrow> glyphInfo list" where
  "createdEntries cfg glyphSize atl results =
     concat (map (\<lambda>out. neededSDFs (fst out)) (snd (atlasLifetime cfg glyphSize atl results)))"

text \<open>The typesetter supplies glyph data for every glyph id it returns.\<close>

definition dataComplete :: "typesetResult \<Rightarrow> bool" where
  "dataComplete result \<longleftrightarrow> list_all (\<lambda>glyphId. glyphData result glyphId \<noteq> None) (glyphIds result)"

text \<open>
  An atlas that has given the glyph ids \<open>ids\<close>, in this order, the slots
  \<open>0, 1, \<dots>\<close> and holds nothing else.
\<close>

definition allocated :: "atlas \<Rightarrow> nat list \<Rightarrow> bool" where
  "allocated atl ids \<longleftrightarrow>
     distinct ids \<and> count atl = length ids \<and> dom (glyphs atl) = set ids
     \<and> (\<forall>i<length ids. map_option atlasIndex (glyphs atl (ids ! i)) = Some i)"

text \<open>
  The calls that reach the module, in the order in which they run: a call of
  \<open>configureTextBuilder\<close>, a call of \<open>getTextRenderInfo\<close> that has returned with its
  continuations still pending (\<open>Issue\<close>), and a call of \<open>getTextRenderInfo\<close> together with its
  continuations, run to the callback (\<open>Request\<close>). A sequence of calls has no final state
  when one of its requests never returns.
\<close>

datatype call =
  Configure config_options
  | Issue env args
  | Request env args

fun isConfigure :: "call \<Rightarrow> bool" where
  "isConfigure (Configure c) = True"
| "isConfigure (Issue e a) = False"
| "isConfigure (Request e a) = False"

fun perform :: "module \<Rightarrow> call \<Rightarrow> module option" where
  "perform m (Configure c) = Some (configureTextBuilder m c)"
| "perform m (Issue e a) = Some (fst (issueRequest e m a))"
| "perform m (Request e a) = map_option fst (getTextRenderInfo e m a)"

fun performAll :: "module \<Rightarrow> call list \<Rightarrow> module option" where
  "performAll m [] = Some m"
| "performAll m (c # cs) = (case perform m c of None \<Rightarrow> None | Some m' \<Rightarrow> performAll m' cs)"

text \<open>The message of line 56.\<close>

definition ignoredWarning :: string where
  "ignoredWarning = ''configureTextBuilder called after first font request; will be ignored.''"

text \<open>
  Every double that lines 189--198 and 224 compute for a glyph with the given path bounds is
  finite. Then the numbers of the model are the numbers of the source.
\<close>

definition allocationFinite :: "config \<Rightarrow> nat \<Rightarrow> rect \<Rightarrow> bool" where
  "allocationFinite cfg glyphSize bounds =
     (case bounds of (b0, b1, b2, b3) \<Rightarrow>
        let w = js_sub b2 b0;
            h = js_sub b3 b1;
            perTexel = js_div (max w h) (of_nat glyphSize);
            scaled = js_mul (sdfMargin cfg) (of_nat glyphSize);
            texels = js_add scaled (1 / 2);
            margin = js_mul perTexel texels
        in (case expandBounds bounds margin of (v0, v1, v2, v3) \<Rightarrow>
              list_all finite64
                [w, h, perTexel, scaled, texels, margin, v0, v1, v2, v3,
                 js_sub v2 v0, js_sub v3 v1]))"

section \<open>Example requests\<close>

text \<open>
  Two typesetting results over the same font, for the texts \<open>AB\<close> and \<open>BA\<close>: the same two
  glyphs in either order.
\<close>

definition glyphs_AB :: "nat \<rightharpoonup> glyphDatum" where
  "glyphs_AB = [36 \<mapsto> \<lparr>glyphPath = ''A'', pathBounds = (0, 0, 100, 100)\<rparr>,
                37 \<mapsto> \<lparr>glyphPath = ''B'', pathBounds = (0, 0, 100, 60)\<rparr>]"

definition typeset_AB :: typesetResult where
  "typeset_AB = \<lparr>glyphIds = [36, 37], glyphPositions = [0, 0, 7, 0], fontSize = 10,
                 unitsPerEm = 1000, glyphData = glyphs_AB\<rparr>"

definition typeset_BA :: typesetResult where
  "typeset_BA = \<lparr>glyphIds = [37, 36], glyphPositions = [0, 0, 7, 0], fontSize = 10,
                 unitsPerEm = 1000, glyphData = glyphs_AB\<rparr>"

text \<open>
  The scenario of the specification: \<open>sdfGlyphSize\<close> 32 and \<open>textureWidth\<close> 128 are configured,
  and the text \<open>AA\<close> is typeset to two occurrences of one glyph with path bounds
  \<open>[0, 0, 100, 100]\<close>; \<open>task_A\<close> is the one call of the SDF generator it leads to.
\<close>

definition config_32_128 :: config_options where
  "config_32_128 =
     \<lparr>opt_defaultFontURL = None, opt_sdfGlyphSize = Some 32, opt_sdfMargin = None,
      opt_sdfExponent = None, opt_textureWidth = Some 128\<rparr>"

definition typeset_AA :: typesetResult where
  "typeset_AA =
     \<lparr>glyphIds = [36, 36], glyphPositions = [0, 0, 7, 0], fontSize = 10, unitsPerEm = 1000,
      glyphData = [36 \<mapsto> \<lparr>glyphPath = ''A'', pathBounds = (0, 0, 100, 100)\<rparr>]\<rparr>"

definition args_AA :: args where
  "args_AA = \<lparr>argFont = None, argText = ''AA'', argSdfGlyphSize = None\<rparr>"

definition task_A :: sdfTask where
  "task_A =
     \<lparr>taskWidth = 32, taskHeight = 32, taskPath = ''A'',
      taskViewBox = (0 - 125 / 16, 0 - 125 / 16, 100 + 125 / 16, 100 + 125 / 16),
      maxDistance = 100 + 2 * (125 / 16), taskExponent = 9\<rparr>"

text \<open>
  Collaborators for the examples: URLs are taken as absolute, an empty text is typeset to
  nothing and any other text as \<open>AA\<close>, and the generator returns a block of full bytes.
\<close>

definition env_example :: env where
  "env_example =
     \<lparr>toAbsoluteURL = (\<lambda>url. url),
      typesetInWorker = (\<lambda>p. if paramText p = []
         then \<lparr>glyphIds = [], glyphPositions = [], fontSize = 10, unitsPerEm = 1000,
               glyphData = Map.empty\<rparr>
         else typeset_AA),
      generateSDFInWorker = (\<lambda>task. replicate (taskWidth task * taskHeight task) 255)\<rparr>"

text \<open>A request for the empty text, and a configuration of the margin alone.\<close>

definition args_empty :: args where
  "args_empty = \<lparr>argFont = None, argText = [], argSdfGlyphSize = None\<rparr>"

definition config_margin :: config_options where
  "config_margin =
     \<lparr>opt_defaultFontURL = None, opt_sdfGlyphSize = None, opt_sdfMargin = Some (1 / 8),
      opt_sdfExponent = None, opt_textureWidth = None\<rparr>"

text \<open>
  A configuration with a margin of \<open>0.1\<close>, that is the double nearest to one tenth, a glyph
  with the path bounds \<open>[0, 0, 76, 10]\<close>, and the entry that a glyph size of 64 gives it.
\<close>

definition config_tenth :: config where
  "config_tenth = CONFIG_initial\<lparr>sdfMargin := 3602879701896397 / 36028797018963968\<rparr>"

definition glyphs_wide :: "nat \<rightharpoonup> glyphDatum" where
  "glyphs_wide = [36 \<mapsto> \<lparr>glyphPath = ''A'', pathBounds = (0, 0, 76, 10)\<rparr>]"

definition entry_wide :: glyphInfo where
  "entry_wide =
     \<lparr>path = ''A'', atlasIndex = 0,
      sdfViewBox = (- (4612671180845875 / 562949953421312), - (4612671180845875 / 562949953421312),
                    2962304227554099 / 35184372088832, 2560542678764749 / 140737488355328)\<rparr>"

section \<open>The typesetter's answer to an empty text\<close>

text \<open>
  Modelled from the spec: the typesetter (\<open>worker/Typesetter.js\<close>) is not among the sources
  at hand; the module only receives what it resolves with. The specification states that
  "an empty string yields an empty glyph list".
\<close>

definition typesetsEmptyText :: "env \<Rightarrow> bool" where
  "typesetsEmptyText e \<longleftrightarrow> (\<forall>p. paramText p = [] \<longrightarrow> glyphIds (typesetInWorker e p) = [])"

section \<open>Properties of the texture\<close>

subsection \<open>Growth\<close>

lemma biggerTexture_data: "data (biggerTexture t) = data t @ replicate (length (data t)) 0"
  by (simp add: biggerTexture_def Uint8Array_set_def new_Uint8Array_def Let_def)

lemma biggerTexture_width: "width (biggerTexture t) = width t"
  by (simp add: biggerTexture_def Let_def)

lemma biggerTexture_height: "height (biggerTexture t) = height t * 2"
  by (simp add: biggerTexture_def Let_def)

lemma biggerTexture_length: "length (data (biggerTexture t)) = length (data t) * 2"
  by (simp add: biggerTexture_data)

lemma doubled_width: "width ((biggerTexture ^^ k) t) = width t"
  by (induction k) (simp_all add: biggerTexture_width)

lemma doubled_height: "height ((biggerTexture ^^ k) t) = height t * 2 ^ k"
  by (induction k) (simp_all add: biggerTexture_height)

lemma doubled_length: "length (data ((biggerTexture ^^ k) t)) = length (data t) * 2 ^ k"
  by (induction k) (simp_all add: biggerTexture_length)

lemma doubled_data:
  "data ((biggerTexture ^^ k) t) = data t @ replicate (length (data t) * 2 ^ k - length (data t)) 0"
proof (induction k)
  case 0
  show ?case by simp
next
  case (Suc k)
  have le: "length (data t) \<le> length (data t) * 2 ^ k" by simp
  have "data ((biggerTexture ^^ Suc k) t)
      = data ((biggerTexture ^^ k) t) @ replicate (length (data ((biggerTexture ^^ k) t))) 0"
    by (simp add: biggerTexture_data)
  also have "\<dots> = data t @ replicate (length (data t) * 2 ^ k - length (data t)) 0
                    @ replicate (length (data t) * 2 ^ k) 0"
    by (simp add: Suc.IH doubled_length)
  also have "\<dots> = data t @ replicate (length (data t) * 2 ^ Suc k - length (data t)) 0"
    using le by (simp add: replicate_add [symmetric])
  finally show ?case .
qed

lemma growTexture_doubles:
  assumes "0 < length (data t)"
  shows "\<exists>k. growTexture g s t = Some ((biggerTexture ^^ k) t)
             \<and> (s + 1) * g * g \<le> length (data t) * 2 ^ k
             \<and> (\<forall>j<k. length (data t) * 2 ^ j < (s + 1) * g * g)"
  using assms
proof (induction "(s + 1) * g * g - length (data t)" arbitrary: t rule: less_induct)
  case less
  show ?case
  proof (cases "length (data t) < (s + 1) * g * g")
    case False
    then have "growTexture g s t = Some ((biggerTexture ^^ 0) t)"
      by (subst growTexture.simps) simp
    moreover have "(s + 1) * g * g \<le> length (data t) * 2 ^ 0" using False by simp
    ultimately show ?thesis by blast
  next
    case True
    let ?t = "biggerTexture t"
    have len: "length (data ?t) = length (data t) * 2" by (rule biggerTexture_length)
    have "(s + 1) * g * g - length (data ?t) < (s + 1) * g * g - length (data t)"
      using True less.prems len by linarith
    moreover have "0 < length (data ?t)" using less.prems len by simp
    ultimately obtain k where k: "growTexture g s ?t = Some ((biggerTexture ^^ k) ?t)"
        "(s + 1) * g * g \<le> length (data ?t) * 2 ^ k"
        "\<forall>j<k. length (data ?t) * 2 ^ j < (s + 1) * g * g"
      using less.hyps by blast
    have "growTexture g s t = Some ((biggerTexture ^^ Suc k) t)"
      using True k(1) by (subst growTexture.simps) (simp add: funpow_swap1)
    moreover have "(s + 1) * g * g \<le> length (data t) * 2 ^ Suc k"
      using k(2) len by (simp add: mult.assoc)
    moreover have "\<forall>j<Suc k. length (data t) * 2 ^ j < (s + 1) * g * g"
    proof (intro allI impI)
      fix j assume "j < Suc k"
      show "length (data t) * 2 ^ j < (s + 1) * g * g"
      proof (cases j)
        case 0
        then show ?thesis using True by simp
      next
        case (Suc i)
        then have "i < k" using \<open>j < Suc k\<close> by simp
        then have "length (data ?t) * 2 ^ i < (s + 1) * g * g" using k(3) by blast
        then show ?thesis using Suc len by (simp add: mult.assoc)
      qed
    qed
    ultimately show ?thesis by blast
  qed
qed

subsection \<open>Addresses\<close>

lemma radix_unique:
  fixes a b a' b' m :: nat
  assumes "b < m" "b' < m" "a * m + b = a' * m + b'"
  shows "a = a' \<and> b = b'"
proof -
  have "(a * m + b) div m = a" "(a' * m + b') div m = a'" using assms(1,2) by simp_all
  then have "a = a'" using assms(3) by simp
  then show ?thesis using assms(3) by simp
qed

lemma slotAddress_factored:
  "slotAddress g w s y x =
     (((s div 4) div (w div g) * g + y) * w + ((s div 4) mod (w div g) * g + x)) * 4 + s mod 4"
  by (simp add: slotAddress_def algebra_simps)

lemma column_offset_less:
  fixes g w :: nat
  assumes "g dvd w" "0 < w" "x < g"
  shows "q mod (w div g) * g + x < w"
proof -
  obtain c where w: "w = g * c" using assms(1) by (auto simp: dvd_def)
  have c: "0 < c" and g: "0 < g" using assms(2) w by auto
  have "w div g = c" using w g by simp
  then have "q mod (w div g) < c" using c by simp
  then have "q mod (w div g) + 1 \<le> c" by simp
  then have "(q mod (w div g) + 1) * g \<le> c * g" by (rule mult_le_mono1)
  then show ?thesis using assms(3) w by (simp add: algebra_simps)
qed

lemma slotAddress_inj:
  assumes "g dvd w" "0 < w" "y < g" "x < g" "y' < g" "x' < g"
    and eq: "slotAddress g w s y x = slotAddress g w s' y' x'"
  shows "s = s' \<and> y = y' \<and> x = x'"
proof -
  let ?c = "w div g"
  have g: "0 < g" using assms(3) by simp
  have c: "0 < ?c" using assms(1,2) g by (auto simp: dvd_def)
  have m4: "s mod 4 < 4" "s' mod 4 < 4" by simp_all
  have eq': "(((s div 4) div ?c * g + y) * w + ((s div 4) mod ?c * g + x)) * 4 + s mod 4
           = (((s' div 4) div ?c * g + y') * w + ((s' div 4) mod ?c * g + x')) * 4 + s' mod 4"
    using eq unfolding slotAddress_factored .
  have 1: "((s div 4) div ?c * g + y) * w + ((s div 4) mod ?c * g + x)
         = ((s' div 4) div ?c * g + y') * w + ((s' div 4) mod ?c * g + x')"
       and ch: "s mod 4 = s' mod 4"
    using radix_unique [OF m4 eq'] by simp_all
  have 2: "(s div 4) div ?c * g + y = (s' div 4) div ?c * g + y'"
       and 3: "(s div 4) mod ?c * g + x = (s' div 4) mod ?c * g + x'"
    using radix_unique [OF column_offset_less column_offset_less 1] assms by simp_all
  have r: "(s div 4) div ?c = (s' div 4) div ?c" and y: "y = y'"
    using radix_unique [OF assms(3) assms(5) 2] by simp_all
  have q: "(s div 4) mod ?c = (s' div 4) mod ?c" and x: "x = x'"
    using radix_unique [OF assms(4) assms(6) 3] by simp_all
  have "s div 4 = s' div 4"
    using r q by (metis div_mult_mod_eq)
  then have "s = s'" using ch by (metis div_mult_mod_eq)
  then show ?thesis using y x by simp
qed

lemma slotAddress_less:
  assumes ok: "texture_ok g t" and s: "s < slotCapacity g t" and "y < g" "x < g"
  shows "slotAddress g (width t) s y x < length (data t)"
proof -
  let ?w = "width t" let ?c = "width t div g"
  have g: "0 < g" and w: "0 < ?w" and gw: "g dvd ?w" and gh: "g dvd height t"
    and len: "length (data t) = 4 * ?w * height t"
    using ok by (simp_all add: texture_ok_def)
  obtain r where h: "height t = g * r" using gh by (auto simp: dvd_def)
  have wc: "?w = g * ?c" using gw by simp
  have "length (data t) = (4 * ?c * r) * (g * g)"
    using len h wc by (metis mult.assoc mult.commute mult.left_commute)
  then have cap: "slotCapacity g t = 4 * ?c * r" using g by (simp add: slotCapacity_def)
  have "s div 4 < ?c * r" using s cap by (simp add: div_less_iff_less_mult mult.commute)
  then have "(s div 4) div ?c < r"
    by (metis div_mult2_eq less_mult_imp_div_less mult.commute)
  then have "(s div 4) div ?c + 1 \<le> r" by simp
  then have "((s div 4) div ?c + 1) * g \<le> r * g" by (rule mult_le_mono1)
  then have "(s div 4) div ?c * g + y + 1 \<le> r * g" using assms(3) by (simp add: algebra_simps)
  then have "((s div 4) div ?c * g + y + 1) * ?w \<le> r * g * ?w" by (rule mult_le_mono1)
  moreover have "(s div 4) mod ?c * g + x < ?w" using column_offset_less [OF gw w assms(4)] .
  ultimately have "((s div 4) div ?c * g + y) * ?w + ((s div 4) mod ?c * g + x) + 1 \<le> r * g * ?w"
    by (simp add: algebra_simps)
  then have "(((s div 4) div ?c * g + y) * ?w + ((s div 4) mod ?c * g + x) + 1) * 4 \<le> r * g * ?w * 4"
    by (rule mult_le_mono1)
  moreover have "s mod 4 < 4" by simp
  ultimately have "slotAddress g ?w s y x < r * g * ?w * 4"
    unfolding slotAddress_factored by (simp add: algebra_simps)
  then show ?thesis using len h by (simp add: algebra_simps)
qed

lemma cols_nat:
  assumes "g dvd w"
  shows "(of_nat w / of_nat g :: rat) = of_nat (w div g)"
  using assms by (simp add: of_nat_of_nat_div)

lemma texelIndex_nat:
  assumes "g dvd width t" "0 < g" "0 < width t"
  shows "texelIndex g t s y x = of_nat (slotAddress g (width t) s y x)"
proof -
  let ?c = "width t div g"
  have c: "cols g t = of_nat ?c" using assms(1) by (simp add: cols_def of_nat_of_nat_div)
  have fl: "\<lfloor>(of_nat (s div 4) :: rat) / of_nat ?c\<rfloor> = int ((s div 4) div ?c)"
    by (rule floor_divide_of_nat_eq)
  have "js_rem (of_nat (s div 4)) (of_nat ?c) = (of_nat ((s div 4) mod ?c) :: rat)"
  proof -
    have "(of_nat (s div 4) :: rat) = of_nat ?c * of_nat ((s div 4) div ?c) + of_nat ((s div 4) mod ?c)"
      by (metis of_nat_add of_nat_mult mult_div_mod_eq)
    then show ?thesis unfolding js_rem_def fl by simp
  qed
  then show ?thesis
    unfolding texelIndex_def rowStartIndex_def baseStartIndex_def c fl squareIndex_def channel_def
      slotAddress_def
    by simp
qed

lemma store_nat: "store arr (of_nat n) v = arr[n := v]"
  by (simp add: store_def valid_index_def list_update_beyond)

lemma load_nat: "load arr (of_nat n) = (if n < length arr then Some (arr ! n) else None)"
  by (simp add: load_def valid_index_def)

subsection \<open>Insertion\<close>

lemma foldl_update_length:
  "length (foldl (\<lambda>a j. a[f j := v j]) arr js) = length arr"
  by (induction js arbitrary: arr) simp_all

lemma foldl_update_miss:
  "\<forall>j\<in>set js. f j \<noteq> i \<Longrightarrow> foldl (\<lambda>a j. a[f j := v j]) arr js ! i = arr ! i"
  by (induction js arbitrary: arr) simp_all

lemma foldl_update_hit:
  assumes "distinct (map f js)" "j \<in> set js" "f j < length arr"
  shows "foldl (\<lambda>a j. a[f j := v j]) arr js ! f j = v j"
  using assms
proof (induction js arbitrary: arr)
  case Nil
  then show ?case by simp
next
  case (Cons k js)
  show ?case
  proof (cases "j = k")
    case True
    have "f k \<notin> f ` set js" using Cons.prems(1) by simp
    then have "\<forall>j'\<in>set js. f j' \<noteq> f j" unfolding True by (metis imageI)
    then have "foldl (\<lambda>a j. a[f j := v j]) (arr[f k := v k]) js ! f j = arr[f k := v k] ! f j"
      by (rule foldl_update_miss)
    then show ?thesis using True Cons.prems(3) by simp
  next
    case False
    then have "j \<in> set js" using Cons.prems(2) by simp
    moreover have "distinct (map f js)" using Cons.prems(1) by simp
    moreover have "f j < length (arr[f k := v k])" using Cons.prems(3) by simp
    ultimately show ?thesis using Cons.IH by simp
  qed
qed

lemma upt_next_row: "[0..<Suc n * g] = [0..<n * g] @ map (\<lambda>x. x + n * g) [0..<g]"
proof -
  have "[0..<n * g + g] = [0..<n * g] @ [n * g..<n * g + g]"
    by (rule upt_add_eq_append) simp
  moreover have "map (\<lambda>x. x + n * g) [0..<g] = [n * g..<g + n * g]"
    by (rule map_add_upt)
  moreover have "Suc n * g = n * g + g" "g + n * g = n * g + g" by simp_all
  ultimately show ?thesis by metis
qed

lemma nested_foldl_upt:
  assumes "0 < g"
  shows "foldl (\<lambda>a y. foldl (\<lambda>a x. F a y x) a [0..<g]) arr [0..<n]
       = foldl (\<lambda>a j. F a (j div g) (j mod g)) arr [0..<n * g]"
proof (induction n)
  case 0
  show ?case by simp
next
  case (Suc n)
  have row: "foldl (\<lambda>a j. F a (j div g) (j mod g)) a (map (\<lambda>x. x + n * g) [0..<g])
           = foldl (\<lambda>a x. F a n x) a [0..<g]" for a
  proof -
    have "foldl (\<lambda>a j. F a (j div g) (j mod g)) a (map (\<lambda>x. x + n * g) [0..<g])
        = foldl (\<lambda>a x. F a ((x + n * g) div g) ((x + n * g) mod g)) a [0..<g]"
      by (rule foldl_map)
    also have "\<dots> = foldl (\<lambda>a x. F a n x) a [0..<g]"
    proof (rule foldl_cong [OF refl refl])
      fix b x assume "x \<in> set [0..<g]"
      then have "x < g" by simp
      then show "F b ((x + n * g) div g) ((x + n * g) mod g) = F b n x" by simp
    qed
    finally show ?thesis .
  qed
  have "foldl (\<lambda>a y. foldl (\<lambda>a x. F a y x) a [0..<g]) arr [0..<Suc n]
      = foldl (\<lambda>a x. F a n x)
          (foldl (\<lambda>a y. foldl (\<lambda>a x. F a y x) a [0..<g]) arr [0..<n]) [0..<g]"
    by simp
  also have "\<dots> = foldl (\<lambda>a x. F a n x) (foldl (\<lambda>a j. F a (j div g) (j mod g)) arr [0..<n * g]) [0..<g]"
    by (simp only: Suc.IH)
  also have "\<dots> = foldl (\<lambda>a j. F a (j div g) (j mod g)) arr ([0..<n * g] @ map (\<lambda>x. x + n * g) [0..<g])"
    by (simp only: foldl_append row)
  finally show ?case by (simp only: upt_next_row)
qed

lemma insertGlyph_flat:
  assumes "g dvd width t" "0 < g" "0 < width t"
  shows "data (insertGlyph g t s td)
       = foldl (\<lambda>a j. a[slotAddress g (width t) s (j div g) (j mod g) := textureData_at td j])
           (data t) [0..<g * g]"
proof -
  have "writeRow g t s td
      = (\<lambda>a y. foldl (\<lambda>a x. a[slotAddress g (width t) s y x := textureData_at td (y * g + x)])
                 a [0..<g])"
    by (intro ext) (simp add: writeRow_def texelIndex_nat [OF assms] store_nat)
  then have "data (insertGlyph g t s td)
      = foldl (\<lambda>a y. foldl (\<lambda>a x. a[slotAddress g (width t) s y x := textureData_at td (y * g + x)])
                        a [0..<g]) (data t) [0..<g]"
    by (simp add: insertGlyph_def)
  also have "\<dots> = foldl (\<lambda>a j. a[slotAddress g (width t) s (j div g) (j mod g)
                                  := textureData_at td (j div g * g + j mod g)]) (data t) [0..<g * g]"
    by (rule nested_foldl_upt [OF assms(2)])
  finally show ?thesis by simp
qed

lemma insertGlyph_width: "width (insertGlyph g t s td) = width t"
  and insertGlyph_height: "height (insertGlyph g t s td) = height t"
  by (simp_all add: insertGlyph_def)

lemma insertGlyph_length:
  assumes "g dvd width t" "0 < g" "0 < width t"
  shows "length (data (insertGlyph g t s td)) = length (data t)"
  by (simp add: insertGlyph_flat [OF assms] foldl_update_length)

lemma slotAddress_distinct:
  assumes "g dvd w" "0 < w" "0 < g"
  shows "distinct (map (\<lambda>j. slotAddress g w s (j div g) (j mod g)) [0..<g * g])"
proof -
  have "inj_on (\<lambda>j. slotAddress g w s (j div g) (j mod g)) {0..<g * g}"
  proof (rule inj_onI)
    fix i j assume i: "i \<in> {0..<g * g}" and j: "j \<in> {0..<g * g}"
      and eq: "slotAddress g w s (i div g) (i mod g) = slotAddress g w s (j div g) (j mod g)"
    have "i div g < g" "j div g < g" using i j by (simp_all add: less_mult_imp_div_less)
    moreover have "i mod g < g" "j mod g < g" using assms(3) by simp_all
    ultimately have "i div g = j div g \<and> i mod g = j mod g"
      using slotAddress_inj [OF assms(1,2) _ _ _ _ eq] by blast
    then show "i = j" by (metis div_mult_mod_eq)
  qed
  then show ?thesis by (simp add: distinct_map)
qed

lemma insertGlyph_written:
  assumes ok: "texture_ok g t" and s: "s < slotCapacity g t" and j: "j < g * g"
  shows "data (insertGlyph g t s td) ! slotAddress g (width t) s (j div g) (j mod g)
       = textureData_at td j"
proof -
  have g: "0 < g" and w: "0 < width t" and gw: "g dvd width t"
    using ok by (simp_all add: texture_ok_def)
  have "j div g < g" using j by (simp add: less_mult_imp_div_less)
  moreover have "j mod g < g" using g by simp
  ultimately have lt: "slotAddress g (width t) s (j div g) (j mod g) < length (data t)"
    by (rule slotAddress_less [OF ok s])
  have mem: "j \<in> set [0..<g * g]" using j by simp
  show ?thesis
    unfolding insertGlyph_flat [OF gw g w]
    using foldl_update_hit [where f = "\<lambda>j. slotAddress g (width t) s (j div g) (j mod g)"
        and v = "textureData_at td", OF slotAddress_distinct [OF gw w g] mem lt] .
qed

lemma insertGlyph_elsewhere:
  assumes "g dvd width t" "0 < g" "0 < width t"
    and "\<forall>j<g * g. slotAddress g (width t) s (j div g) (j mod g) \<noteq> i"
  shows "data (insertGlyph g t s td) ! i = data t ! i"
  unfolding insertGlyph_flat [OF assms(1-3)]
  using assms(4) by (intro foldl_update_miss) simp

lemma readSlot_nat:
  assumes "g dvd width t" "0 < g" "0 < width t"
  shows "readSlot g t s
       = map (\<lambda>j. load (data t) (of_nat (slotAddress g (width t) s (j div g) (j mod g)))) [0..<g * g]"
  by (simp add: readSlot_def texelIndex_nat [OF assms])

lemma texture_ok_insertGlyph:
  assumes "texture_ok g t"
  shows "texture_ok g (insertGlyph g t s td)"
proof -
  have "g dvd width t" "0 < g" "0 < width t" using assms by (simp_all add: texture_ok_def)
  then have "length (data (insertGlyph g t s td)) = length (data t)" by (rule insertGlyph_length)
  then show ?thesis using assms by (simp add: texture_ok_def insertGlyph_width insertGlyph_height)
qed

lemma slotCapacity_insertGlyph:
  assumes "texture_ok g t"
  shows "slotCapacity g (insertGlyph g t s td) = slotCapacity g t"
proof -
  have "g dvd width t" "0 < g" "0 < width t" using assms by (simp_all add: texture_ok_def)
  then have "length (data (insertGlyph g t s td)) = length (data t)" by (rule insertGlyph_length)
  then show ?thesis by (simp add: slotCapacity_def)
qed

lemma readSlot_insertGlyph_same:
  assumes ok: "texture_ok g t" and s: "s < slotCapacity g t"
  shows "readSlot g (insertGlyph g t s td) s = map (\<lambda>j. Some (textureData_at td j)) [0..<g * g]"
proof -
  have g: "0 < g" and w: "0 < width t" and gw: "g dvd width t"
    using ok by (simp_all add: texture_ok_def)
  have len: "length (data (insertGlyph g t s td)) = length (data t)"
    by (rule insertGlyph_length [OF gw g w])
  have "load (data (insertGlyph g t s td))
           (of_nat (slotAddress g (width t) s (j div g) (j mod g))) = Some (textureData_at td j)"
    if "j < g * g" for j
  proof -
    have "j div g < g" using that by (simp add: less_mult_imp_div_less)
    moreover have "j mod g < g" using g by simp
    ultimately have "slotAddress g (width t) s (j div g) (j mod g) < length (data t)"
      by (rule slotAddress_less [OF ok s])
    then show ?thesis
      by (simp add: load_nat len insertGlyph_written [OF ok s that])
  qed
  then show ?thesis
    using readSlot_nat [of g "insertGlyph g t s td" s] gw g w
    by (simp add: insertGlyph_width)
qed

lemma readSlot_insertGlyph_other:
  assumes ok: "texture_ok g t" and neq: "s' \<noteq> s"
  shows "readSlot g (insertGlyph g t s td) s' = readSlot g t s'"
proof -
  have g: "0 < g" and w: "0 < width t" and gw: "g dvd width t"
    using ok by (simp_all add: texture_ok_def)
  have len: "length (data (insertGlyph g t s td)) = length (data t)"
    by (rule insertGlyph_length [OF gw g w])
  have "load (data (insertGlyph g t s td))
           (of_nat (slotAddress g (width t) s' (j div g) (j mod g)))
      = load (data t) (of_nat (slotAddress g (width t) s' (j div g) (j mod g)))"
    if "j < g * g" for j
  proof -
    have j: "j div g < g" "j mod g < g" using that g by (simp_all add: less_mult_imp_div_less)
    have "\<forall>i<g * g. slotAddress g (width t) s (i div g) (i mod g)
                   \<noteq> slotAddress g (width t) s' (j div g) (j mod g)"
    proof (intro allI impI notI)
      fix i assume "i < g * g"
        and eq: "slotAddress g (width t) s (i div g) (i mod g)
               = slotAddress g (width t) s' (j div g) (j mod g)"
      then have "i div g < g" "i mod g < g" using g by (simp_all add: less_mult_imp_div_less)
      then have "s = s'" using slotAddress_inj [OF gw w _ _ j eq] by blast
      then show False using neq by simp
    qed
    then have "data (insertGlyph g t s td) ! slotAddress g (width t) s' (j div g) (j mod g)
             = data t ! slotAddress g (width t) s' (j div g) (j mod g)"
      by (rule insertGlyph_elsewhere [OF gw g w])
    then show ?thesis by (simp add: load_nat len)
  qed
  then show ?thesis
    using readSlot_nat [of g "insertGlyph g t s td" s'] readSlot_nat [OF gw g w, of s'] gw g w
    by (simp add: insertGlyph_width)
qed

subsection \<open>Capacity and growth of a well-formed texture\<close>

lemma texture_ok_length:
  assumes "texture_ok g t"
  shows "length (data t) = slotCapacity g t * (g * g)"
proof -
  have g: "0 < g" and gw: "g dvd width t" and gh: "g dvd height t"
    and len: "length (data t) = 4 * width t * height t"
    using assms by (simp_all add: texture_ok_def)
  obtain c where c: "width t = g * c" using gw by (auto simp: dvd_def)
  obtain r where r: "height t = g * r" using gh by (auto simp: dvd_def)
  have "length (data t) = (4 * c * r) * (g * g)" using len c r by (simp add: algebra_simps)
  then show ?thesis using g by (simp add: slotCapacity_def)
qed

lemma texture_ok_nonempty: "texture_ok g t \<Longrightarrow> 0 < length (data t)"
  by (simp add: texture_ok_def)

lemma covered_iff:
  assumes "texture_ok g t"
  shows "(s + 1) * g * g \<le> length (data t) \<longleftrightarrow> s < slotCapacity g t"
proof -
  have g: "0 < g * g" using assms by (simp add: texture_ok_def)
  have "(s + 1) * g * g \<le> length (data t) \<longleftrightarrow> (s + 1) * (g * g) \<le> slotCapacity g t * (g * g)"
    using texture_ok_length [OF assms] by (simp only: mult.assoc)
  also have "\<dots> \<longleftrightarrow> s + 1 \<le> slotCapacity g t" using g by (metis mult_le_cancel2)
  also have "\<dots> \<longleftrightarrow> s < slotCapacity g t" by linarith
  finally show ?thesis .
qed

lemma texture_ok_doubled:
  assumes "texture_ok g t"
  shows "texture_ok g ((biggerTexture ^^ k) t)"
  using assms
  by (simp add: texture_ok_def doubled_width doubled_height doubled_length)

lemma slotCapacity_doubled:
  assumes "texture_ok g t"
  shows "slotCapacity g ((biggerTexture ^^ k) t) = slotCapacity g t * 2 ^ k"
proof -
  have g: "0 < g * g" using assms by (simp add: texture_ok_def)
  have "length (data ((biggerTexture ^^ k) t)) = (slotCapacity g t * 2 ^ k) * (g * g)"
    by (simp add: doubled_length texture_ok_length [OF assms] algebra_simps)
  then show ?thesis using g by (simp add: slotCapacity_def)
qed

lemma doubled_nth:
  assumes "i < length (data t)"
  shows "data ((biggerTexture ^^ k) t) ! i = data t ! i"
  using assms by (simp add: doubled_data nth_append)

lemma doubled_zero:
  assumes "length (data t) \<le> i" "i < length (data ((biggerTexture ^^ k) t))"
  shows "data ((biggerTexture ^^ k) t) ! i = 0"
  using assms by (simp add: doubled_data nth_append doubled_length)

lemma readSlot_doubled:
  assumes ok: "texture_ok g t" and s: "s < slotCapacity g t"
  shows "readSlot g ((biggerTexture ^^ k) t) s = readSlot g t s"
proof -
  have g: "0 < g" and w: "0 < width t" and gw: "g dvd width t"
    using ok by (simp_all add: texture_ok_def)
  have le: "length (data t) \<le> length (data ((biggerTexture ^^ k) t))"
    by (simp add: doubled_length)
  have "load (data ((biggerTexture ^^ k) t)) (of_nat (slotAddress g (width t) s (j div g) (j mod g)))
      = load (data t) (of_nat (slotAddress g (width t) s (j div g) (j mod g)))"
    if "j < g * g" for j
  proof -
    have "j div g < g" "j mod g < g" using that g by (simp_all add: less_mult_imp_div_less)
    then have "slotAddress g (width t) s (j div g) (j mod g) < length (data t)"
      by (rule slotAddress_less [OF ok s])
    then show ?thesis using le by (simp add: load_nat doubled_nth)
  qed
  then show ?thesis
    using readSlot_nat [of g "(biggerTexture ^^ k) t" s] readSlot_nat [OF gw g w, of s] gw g w
    by (simp add: doubled_width)
qed

lemma growTexture_ok:
  assumes ok: "texture_ok g t"
  shows "\<exists>k. growTexture g s t = Some ((biggerTexture ^^ k) t)
             \<and> s < slotCapacity g t * 2 ^ k
             \<and> (\<forall>j<k. slotCapacity g t * 2 ^ j \<le> s)"
proof -
  obtain k where k: "growTexture g s t = Some ((biggerTexture ^^ k) t)"
      "(s + 1) * g * g \<le> length (data t) * 2 ^ k"
      "\<forall>j<k. length (data t) * 2 ^ j < (s + 1) * g * g"
    using growTexture_doubles [OF texture_ok_nonempty [OF ok]] by blast
  have cov: "(s + 1) * g * g \<le> length (data t) * 2 ^ j \<longleftrightarrow> s < slotCapacity g t * 2 ^ j" for j
    using covered_iff [OF texture_ok_doubled [OF ok], of s j]
    by (simp add: doubled_length slotCapacity_doubled [OF ok])
  have "s < slotCapacity g t * 2 ^ k" using k(2) cov by blast
  moreover have "\<forall>j<k. slotCapacity g t * 2 ^ j \<le> s"
    using k(3) cov by (metis not_le)
  ultimately show ?thesis using k(1) by blast
qed

lemma growTexture_within:
  assumes "s < slotCapacity g t" "texture_ok g t"
  shows "growTexture g s t = Some t"
  using covered_iff [OF assms(2), of s] assms(1)
  by (subst growTexture.simps) simp

subsection \<open>Writing slots\<close>

lemma writeSlot_ok:
  assumes ok: "texture_ok g t"
  shows "\<exists>k. writeSlot g t s td = Some (insertGlyph g ((biggerTexture ^^ k) t) s td)
             \<and> s < slotCapacity g t * 2 ^ k
             \<and> (\<forall>j<k. slotCapacity g t * 2 ^ j \<le> s)"
  using growTexture_ok [OF ok, of s] by (auto simp: writeSlot_def)

lemma writeSlot_effect:
  assumes ok: "texture_ok g t"
  obtains t' k where "writeSlot g t s td = Some t'" "texture_ok g t'"
    "width t' = width t" "height t' = height t * 2 ^ k"
    "slotCapacity g t' = slotCapacity g t * 2 ^ k"
    "s < slotCapacity g t'" "\<forall>j<k. slotCapacity g t * 2 ^ j \<le> s"
    "readSlot g t' s = map (\<lambda>j. Some (textureData_at td j)) [0..<g * g]"
    "\<And>s'. s' \<noteq> s \<Longrightarrow> s' < slotCapacity g t \<Longrightarrow> readSlot g t' s' = readSlot g t s'"
proof -
  obtain k where k: "writeSlot g t s td = Some (insertGlyph g ((biggerTexture ^^ k) t) s td)"
      "s < slotCapacity g t * 2 ^ k" "\<forall>j<k. slotCapacity g t * 2 ^ j \<le> s"
    using writeSlot_ok [OF ok] by blast
  let ?u = "(biggerTexture ^^ k) t"
  let ?t' = "insertGlyph g ?u s td"
  have oku: "texture_ok g ?u" by (rule texture_ok_doubled [OF ok])
  have capu: "slotCapacity g ?u = slotCapacity g t * 2 ^ k" by (rule slotCapacity_doubled [OF ok])
  have su: "s < slotCapacity g ?u" using k(2) capu by simp
  have 1: "texture_ok g ?t'" by (rule texture_ok_insertGlyph [OF oku])
  have 2: "width ?t' = width t" by (simp add: insertGlyph_width doubled_width)
  have 3: "height ?t' = height t * 2 ^ k" by (simp add: insertGlyph_height doubled_height)
  have 4: "slotCapacity g ?t' = slotCapacity g t * 2 ^ k"
    by (simp add: slotCapacity_insertGlyph [OF oku] capu)
  have 5: "s < slotCapacity g ?t'" using 4 k(2) by simp
  have 6: "readSlot g ?t' s = map (\<lambda>j. Some (textureData_at td j)) [0..<g * g]"
    by (rule readSlot_insertGlyph_same [OF oku su])
  have 7: "readSlot g ?t' s' = readSlot g t s'" if "s' \<noteq> s" "s' < slotCapacity g t" for s'
    using readSlot_insertGlyph_other [OF oku that(1), of td] readSlot_doubled [OF ok that(2), of k]
    by simp
  show ?thesis using that [OF k(1) 1 2 3 4 5 k(3) 6 7] by blast
qed

lemma textureData_full:
  assumes "length td = g * g"
  shows "map (\<lambda>j. Some (textureData_at td j)) [0..<g * g] = map Some td"
  using assms by (simp add: list_eq_iff_nth_eq textureData_at_def)

lemma writeSlots_effect:
  assumes ok: "texture_ok g t"
  shows "\<exists>t' k. writeSlots g t ws = Some t' \<and> texture_ok g t' \<and> width t' = width t
            \<and> height t' = height t * 2 ^ k \<and> slotCapacity g t' = slotCapacity g t * 2 ^ k
            \<and> (\<forall>s'. s' \<notin> fst ` set ws \<longrightarrow> s' < slotCapacity g t \<longrightarrow> readSlot g t' s' = readSlot g t s')"
  using ok
proof (induction ws arbitrary: t)
  case Nil
  have "height t = height t * 2 ^ 0" "slotCapacity g t = slotCapacity g t * 2 ^ 0" by simp_all
  then show ?case using Nil by (metis writeSlots.simps(1))
next
  case (Cons w ws)
  obtain s td where w: "w = (s, td)" by (cases w)
  obtain u k where u: "writeSlot g t s td = Some u" "texture_ok g u" "width u = width t"
      "height u = height t * 2 ^ k" "slotCapacity g u = slotCapacity g t * 2 ^ k"
      "\<And>s'. s' \<noteq> s \<Longrightarrow> s' < slotCapacity g t \<Longrightarrow> readSlot g u s' = readSlot g t s'"
    using writeSlot_effect [OF Cons.prems, of s td] by metis
  obtain t' k' where t': "writeSlots g u ws = Some t'" "texture_ok g t'" "width t' = width u"
      "height t' = height u * 2 ^ k'" "slotCapacity g t' = slotCapacity g u * 2 ^ k'"
      "\<forall>s'. s' \<notin> fst ` set ws \<longrightarrow> s' < slotCapacity g u \<longrightarrow> readSlot g t' s' = readSlot g u s'"
    using Cons.IH [OF u(2)] by blast
  have le: "slotCapacity g t \<le> slotCapacity g u" using u(5) by simp
  have "writeSlots g t (w # ws) = Some t'" using w u(1) t'(1) by simp
  moreover have "width t' = width t" using t'(3) u(3) by simp
  moreover have "height t' = height t * 2 ^ (k + k')" using t'(4) u(4) by (simp add: power_add)
  moreover have "slotCapacity g t' = slotCapacity g t * 2 ^ (k + k')"
    using t'(5) u(5) by (simp add: power_add)
  moreover have "\<forall>s'. s' \<notin> fst ` set (w # ws) \<longrightarrow> s' < slotCapacity g t
                  \<longrightarrow> readSlot g t' s' = readSlot g t s'"
  proof (intro allI impI)
    fix s' assume a: "s' \<notin> fst ` set (w # ws)" and b: "s' < slotCapacity g t"
    have "s' \<noteq> s" and "s' \<notin> fst ` set ws" using a w by auto
    then show "readSlot g t' s' = readSlot g t s'" using t'(6) u(6) b le by simp
  qed
  ultimately show ?case using t'(2) by blast
qed

lemma texture_ok_new:
  assumes "0 < g" "0 < w" "g dvd w"
  shows "texture_ok g (newTexture g w)"
  using assms by (simp add: texture_ok_def newTexture_def)

subsection \<open>Pixels and later writes\<close>

lemma slotAddress_pixel:
  "slotAddress g w s y x =
     4 * (((squareIndex s div (w div g)) * g + y) * w + (squareIndex s mod (w div g)) * g + x)
       + channel s"
  by (simp add: slotAddress_def squareIndex_def channel_def algebra_simps)

lemma writeSlots_keeps:
  assumes ok: "texture_ok g t" and s: "s < slotCapacity g t" and notin: "s \<notin> fst ` set ws"
  shows "\<exists>t'. writeSlots g t ws = Some t' \<and> readSlot g t' s = readSlot g t s"
  using writeSlots_effect [OF ok, of ws] s notin by blast

lemma writeSlots_read_back:
  assumes "texture_ok g t" "distinct (map fst ws)" "list_all (\<lambda>w. length (snd w) = g * g) ws"
  shows "\<exists>t'. writeSlots g t ws = Some t' \<and> texture_ok g t'
            \<and> (\<forall>w\<in>set ws. readSlot g t' (fst w) = map Some (snd w))"
  using assms
proof (induction ws arbitrary: t)
  case Nil
  then show ?case by simp
next
  case (Cons w ws)
  obtain s td where w: "w = (s, td)" by (cases w)
  have len: "length td = g * g" and rest: "list_all (\<lambda>w. length (snd w) = g * g) ws"
    using Cons.prems(3) w by simp_all
  have fresh: "s \<notin> fst ` set ws" and dist: "distinct (map fst ws)"
    using Cons.prems(2) w by simp_all
  obtain u where u: "writeSlot g t s td = Some u" "texture_ok g u" "s < slotCapacity g u"
      "readSlot g u s = map (\<lambda>j. Some (textureData_at td j)) [0..<g * g]"
    using writeSlot_effect [OF Cons.prems(1), of s td] by metis
  have us: "readSlot g u s = map Some td" using u(4) textureData_full [OF len] by simp
  obtain t' where t': "writeSlots g u ws = Some t'" "texture_ok g t'"
      "\<forall>w\<in>set ws. readSlot g t' (fst w) = map Some (snd w)"
    using Cons.IH [OF u(2) dist rest] by blast
  have "readSlot g t' s = readSlot g u s"
    using writeSlots_keeps [OF u(2,3) fresh] t'(1) by simp
  then have "readSlot g t' s = map Some td" using us by simp
  then have "\<forall>w'\<in>set (w # ws). readSlot g t' (fst w') = map Some (snd w')"
    using t'(3) w by simp
  moreover have "writeSlots g t (w # ws) = Some t'" using u(1) t'(1) w by simp
  ultimately show ?case using t'(2) by blast
qed

subsection \<open>Any configuration\<close>

lemma store_length: "length (store arr k v) = length arr"
  by (simp add: store_def)

lemma writeRow_length: "length (writeRow g t s td arr y) = length arr"
proof -
  have "length (foldl (\<lambda>arr x. store arr (f x) (h x)) arr xs) = length arr"
    for f :: "nat \<Rightarrow> rat" and h :: "nat \<Rightarrow> byte" and xs
    by (induction xs arbitrary: arr) (simp_all add: store_length)
  then show ?thesis by (simp add: writeRow_def)
qed

lemma insertGlyph_length_any: "length (data (insertGlyph g t s td)) = length (data t)"
proof -
  have "length (foldl (writeRow g t s td) arr ys) = length arr" for arr ys
    by (induction ys arbitrary: arr) (simp_all add: writeRow_length)
  then show ?thesis by (simp add: insertGlyph_def)
qed

lemma holds_slot_iff:
  assumes "0 < g"
  shows "(s + 1) * g * g \<le> length (data t) \<longleftrightarrow> s < slotCapacity g t"
proof -
  have "0 < g * g" using assms by simp
  then have "s + 1 \<le> length (data t) div (g * g) \<longleftrightarrow> (s + 1) * (g * g) \<le> length (data t)"
    by (rule less_eq_div_iff_mult_less_eq)
  moreover have "(s + 1) * (g * g) = (s + 1) * g * g" by (simp only: mult.assoc)
  moreover have "s + 1 \<le> length (data t) div (g * g) \<longleftrightarrow> s < slotCapacity g t"
    unfolding slotCapacity_def by linarith
  ultimately show ?thesis by metis
qed

lemma writeSlot_dims:
  assumes "data t \<noteq> []"
  shows "\<exists>t' k. writeSlot g t s td = Some t' \<and> width t' = width t
            \<and> height t' = height t * 2 ^ k \<and> length (data t') = length (data t) * 2 ^ k
            \<and> (k = 0 \<longleftrightarrow> (s + 1) * g * g \<le> length (data t))"
proof -
  have "0 < length (data t)" using assms by simp
  then obtain k where k: "growTexture g s t = Some ((biggerTexture ^^ k) t)"
      "(s + 1) * g * g \<le> length (data t) * 2 ^ k"
      "\<forall>j<k. length (data t) * 2 ^ j < (s + 1) * g * g"
    using growTexture_doubles by blast
  let ?t' = "insertGlyph g ((biggerTexture ^^ k) t) s td"
  have "k = 0 \<longleftrightarrow> (s + 1) * g * g \<le> length (data t)"
  proof
    assume "k = 0" then show "(s + 1) * g * g \<le> length (data t)" using k(2) by simp
  next
    assume le: "(s + 1) * g * g \<le> length (data t)"
    show "k = 0"
    proof (rule ccontr)
      assume "k \<noteq> 0"
      then have "length (data t) * 2 ^ 0 < (s + 1) * g * g" using k(3) by blast
      then show False using le by simp
    qed
  qed
  moreover have "writeSlot g t s td = Some ?t'" by (simp add: writeSlot_def k(1))
  moreover have "width ?t' = width t" by (simp add: insertGlyph_width doubled_width)
  moreover have "height ?t' = height t * 2 ^ k" by (simp add: insertGlyph_height doubled_height)
  moreover have "length (data ?t') = length (data t) * 2 ^ k"
    by (simp add: insertGlyph_length_any doubled_length)
  ultimately show ?thesis by blast
qed

lemma writeSlots_dims:
  assumes "data t \<noteq> []"
  shows "\<exists>t' k. writeSlots g t ws = Some t' \<and> width t' = width t
            \<and> height t' = height t * 2 ^ k \<and> length (data t') = length (data t) * 2 ^ k"
  using assms
proof (induction ws arbitrary: t)
  case Nil
  have "height t = height t * 2 ^ 0" "length (data t) = length (data t) * 2 ^ 0" by simp_all
  then show ?case by (metis writeSlots.simps(1))
next
  case (Cons w ws)
  obtain s td where w: "w = (s, td)" by (cases w)
  obtain u k where u: "writeSlot g t s td = Some u" "width u = width t"
      "height u = height t * 2 ^ k" "length (data u) = length (data t) * 2 ^ k"
    using writeSlot_dims [OF Cons.prems, of g s td] by blast
  have "data u \<noteq> []" using u(4) Cons.prems by (cases "data u") auto
  then obtain t' k' where t': "writeSlots g u ws = Some t'" "width t' = width u"
      "height t' = height u * 2 ^ k'" "length (data t') = length (data u) * 2 ^ k'"
    using Cons.IH by blast
  have "writeSlots g t (w # ws) = Some t'" using w u(1) t'(1) by simp
  moreover have "width t' = width t" using t'(2) u(2) by simp
  moreover have "height t' = height t * 2 ^ (k + k')" using t'(3) u(3) by (simp add: power_add)
  moreover have "length (data t') = length (data t) * 2 ^ (k + k')"
    using t'(4) u(4) by (simp add: power_add)
  ultimately show ?case by blast
qed

lemma texelIndex_width:
  assumes "width t' = width t"
  shows "texelIndex g t' s y x = texelIndex g t s y x"
  using assms by (simp add: texelIndex_def rowStartIndex_def baseStartIndex_def cols_def)

lemma load_doubled:
  assumes "load (data t) k \<noteq> None"
  shows "load (data ((biggerTexture ^^ n) t)) k = load (data t) k"
proof -
  have v: "valid_index (data t) k" using assms by (simp add: load_def split: if_splits)
  then have lt: "nat \<lfloor>k\<rfloor> < length (data t)"
    by (simp add: valid_index_def) linarith
  have "length (data t) \<le> length (data ((biggerTexture ^^ n) t))" by (simp add: doubled_length)
  then have "valid_index (data ((biggerTexture ^^ n) t)) k"
    using v by (simp add: valid_index_def)
  then show ?thesis using v lt by (simp add: load_def doubled_nth)
qed

lemma readSlot_doubled_any:
  assumes "None \<notin> set (readSlot g t s)"
  shows "readSlot g ((biggerTexture ^^ n) t) s = readSlot g t s"
proof -
  have "load (data ((biggerTexture ^^ n) t)) (texelIndex g t s (i div g) (i mod g))
      = load (data t) (texelIndex g t s (i div g) (i mod g))" if "i < g * g" for i
  proof -
    have "load (data t) (texelIndex g t s (i div g) (i mod g)) \<in> set (readSlot g t s)"
      using that by (simp add: readSlot_def)
    then have "load (data t) (texelIndex g t s (i div g) (i mod g)) \<noteq> None"
      using assms by metis
    then show ?thesis by (rule load_doubled)
  qed
  then show ?thesis
    by (simp add: readSlot_def texelIndex_width [OF doubled_width])
qed

section \<open>Properties of glyph allocation\<close>

subsection \<open>First-seen order\<close>

lemma firstSeenFrom_prefix: "\<exists>zs. firstSeenFrom seen ids = seen @ zs"
proof (induction ids arbitrary: seen)
  case Nil
  show ?case by simp
next
  case (Cons x ids)
  obtain zs where "firstSeenFrom (if x \<in> set seen then seen else seen @ [x]) ids
                 = (if x \<in> set seen then seen else seen @ [x]) @ zs"
    using Cons.IH by blast
  then show ?case by (cases "x \<in> set seen") auto
qed

lemma firstSeenFrom_set: "set (firstSeenFrom seen ids) = set seen \<union> set ids"
  by (induction ids arbitrary: seen) auto

lemma firstSeenFrom_distinct: "distinct seen \<Longrightarrow> distinct (firstSeenFrom seen ids)"
  by (induction ids arbitrary: seen) auto

lemma firstSeenFrom_append:
  "firstSeenFrom seen (xs @ ys) = firstSeenFrom (firstSeenFrom seen xs) ys"
  by (induction xs arbitrary: seen) auto

lemma firstSeenFrom_length: "length seen \<le> length (firstSeenFrom seen ids)"
  using firstSeenFrom_prefix [of seen ids] by auto

lemma firstSeen_remdups: "firstSeenFrom seen ids = seen @ rev (remdups (rev (filter (\<lambda>x. x \<notin> set seen) ids)))"
proof (induction ids arbitrary: seen)
  case Nil
  show ?case by simp
next
  case (Cons x ids)
  show ?case
  proof (cases "x \<in> set seen")
    case True
    then show ?thesis using Cons.IH [of seen] by simp
  next
    case False
    have "filter (\<lambda>y. y \<notin> set (seen @ [x])) ids = filter (\<lambda>y. y \<noteq> x) (filter (\<lambda>y. y \<notin> set seen) ids)"
      by (induction ids) auto
    moreover have "rev (remdups (rev (x # zs))) = x # rev (remdups (rev (filter (\<lambda>y. y \<noteq> x) zs)))" for zs :: "nat list"
    proof (induction zs rule: rev_induct)
      case Nil
      show ?case by simp
    next
      case (snoc z zs)
      then show ?case by (cases "z = x") (auto simp: remdups_filter)
    qed
    ultimately show ?thesis using False Cons.IH [of "seen @ [x]"] by simp
  qed
qed

subsection \<open>Allocation\<close>

lemma allocated_new: "allocated (newAtlas g w) []"
  by (simp add: allocated_def newAtlas_def)

lemma allocated_nth:
  assumes "allocated atl ids" "i < length ids"
  shows "\<exists>e. glyphs atl (ids ! i) = Some e \<and> atlasIndex e = i"
  using assms by (auto simp: allocated_def)

lemma allocateSlot_known:
  assumes "glyphs atl gid = Some e"
  shows "allocateSlot cfg g gd atl gid = Inr (atl, e, False)"
  using assms by (simp add: allocateSlot_def)

lemma allocateSlot_fresh:
  assumes "glyphs atl gid = None" "gd gid = Some d"
  shows "allocateSlot cfg g gd atl gid
       = Inr (atl\<lparr>count := count atl + 1,
                  glyphs := (glyphs atl)(gid \<mapsto>
                     \<lparr>path = glyphPath d, atlasIndex = count atl,
                      sdfViewBox = expandBounds (pathBounds d) (fontUnitsMargin cfg g (pathBounds d))\<rparr>)\<rparr>,
              \<lparr>path = glyphPath d, atlasIndex = count atl,
               sdfViewBox = expandBounds (pathBounds d) (fontUnitsMargin cfg g (pathBounds d))\<rparr>,
              True)"
  using assms by (simp add: allocateSlot_def Let_def)

lemma allocated_extend:
  assumes al: "allocated atl ids" and new: "gid \<notin> set ids" and idx: "atlasIndex e = count atl"
  shows "allocated (atl\<lparr>count := count atl + 1, glyphs := (glyphs atl)(gid \<mapsto> e)\<rparr>) (ids @ [gid])"
proof -
  have d: "distinct ids" and c: "count atl = length ids" and dm: "dom (glyphs atl) = set ids"
    and nth: "\<forall>i<length ids. map_option atlasIndex (glyphs atl (ids ! i)) = Some i"
    using al by (simp_all add: allocated_def)
  have "map_option atlasIndex (((glyphs atl)(gid \<mapsto> e)) ((ids @ [gid]) ! i)) = Some i"
    if "i < length (ids @ [gid])" for i
  proof (cases "i < length ids")
    case True
    then have "ids ! i \<noteq> gid" using new by (metis nth_mem)
    then show ?thesis using True nth by (simp add: nth_append)
  next
    case False
    then have "i = length ids" using that by simp
    then show ?thesis using idx c by simp
  qed
  then show ?thesis using d c dm new by (simp add: allocated_def)
qed

lemma allocateSlot_step:
  assumes al: "allocated atl ids" and data: "gd gid \<noteq> None"
  shows "\<exists>atl' e. allocateSlot cfg g gd atl gid = Inr (atl', e, gid \<notin> set ids)
            \<and> allocated atl' (if gid \<in> set ids then ids else ids @ [gid])
            \<and> glyphs atl' gid = Some e
            \<and> (\<forall>x\<in>set ids. glyphs atl' x = glyphs atl x)
            \<and> sdfTexture atl' = sdfTexture atl \<and> needsUpdate atl' = needsUpdate atl"
proof (cases "gid \<in> set ids")
  case True
  then obtain e where e: "glyphs atl gid = Some e" using al by (auto simp: allocated_def)
  show ?thesis using True al allocateSlot_known [OF e] e by simp
next
  case False
  then have none: "glyphs atl gid = None" using al by (auto simp: allocated_def)
  obtain d where d: "gd gid = Some d" using data by blast
  let ?e = "\<lparr>path = glyphPath d, atlasIndex = count atl,
             sdfViewBox = expandBounds (pathBounds d) (fontUnitsMargin cfg g (pathBounds d))\<rparr>"
  let ?a = "atl\<lparr>count := count atl + 1, glyphs := (glyphs atl)(gid \<mapsto> ?e)\<rparr>"
  have "allocateSlot cfg g gd atl gid = Inr (?a, ?e, True)" using none d by (rule allocateSlot_fresh)
  moreover have "allocated ?a (ids @ [gid])" by (rule allocated_extend [OF al False]) simp
  moreover have "\<forall>x\<in>set ids. glyphs ?a x = glyphs atl x" using False by auto
  ultimately show ?thesis using False by simp
qed

subsection \<open>The loop of a request\<close>

lemma glyphStep_step:
  assumes al: "allocated (loopAtlas st) ids" and data: "glyphData r gid \<noteq> None"
  shows "\<exists>st' e. glyphStep cfg g r st gid = Inr st'
            \<and> allocated (loopAtlas st') (if gid \<in> set ids then ids else ids @ [gid])
            \<and> glyphs (loopAtlas st') gid = Some e
            \<and> (\<forall>x\<in>set ids. glyphs (loopAtlas st') x = glyphs (loopAtlas st) x)
            \<and> sdfTexture (loopAtlas st') = sdfTexture (loopAtlas st)
            \<and> needsUpdate (loopAtlas st') = needsUpdate (loopAtlas st)
            \<and> neededSDFs st' = neededSDFs st @ (if gid \<in> set ids then [] else [e])
            \<and> atlasIndices st' = atlasIndices st @ [atlasIndex e]
            \<and> length (glyphBounds st') = length (glyphBounds st) + 4"
proof -
  obtain atl' e where a: "allocateSlot cfg g (glyphData r) (loopAtlas st) gid = Inr (atl', e, gid \<notin> set ids)"
      "allocated atl' (if gid \<in> set ids then ids else ids @ [gid])"
      "glyphs atl' gid = Some e" "\<forall>x\<in>set ids. glyphs atl' x = glyphs (loopAtlas st) x"
      "sdfTexture atl' = sdfTexture (loopAtlas st)" "needsUpdate atl' = needsUpdate (loopAtlas st)"
    using allocateSlot_step [where gd = "glyphData r" and gid = gid and cfg = cfg and g = g, OF al data]
    by blast
  obtain v0 v1 v2 v3 where v: "sdfViewBox e = (v0, v1, v2, v3)" by (metis prod_cases4)
  show ?thesis
    using a(2-6) by (simp add: glyphStep_def a(1) v Let_def)
qed

lemma forEachGlyph_alloc:
  assumes "allocated (loopAtlas st) ids" "list_all (\<lambda>gid. glyphData r gid \<noteq> None) gids"
  shows "\<exists>st'. forEachGlyph cfg g r st gids = (st', None)
            \<and> allocated (loopAtlas st') (firstSeenFrom ids gids)
            \<and> (\<forall>x\<in>set ids. glyphs (loopAtlas st') x = glyphs (loopAtlas st) x)
            \<and> sdfTexture (loopAtlas st') = sdfTexture (loopAtlas st)
            \<and> needsUpdate (loopAtlas st') = needsUpdate (loopAtlas st)
            \<and> map Some (neededSDFs st')
                = map Some (neededSDFs st)
                  @ map (glyphs (loopAtlas st')) (drop (length ids) (firstSeenFrom ids gids))
            \<and> map Some (atlasIndices st')
                = map Some (atlasIndices st)
                  @ map (\<lambda>x. map_option atlasIndex (glyphs (loopAtlas st') x)) gids
            \<and> length (glyphBounds st') = length (glyphBounds st) + 4 * length gids"
  using assms
proof (induction gids arbitrary: st ids)
  case Nil
  then show ?case by simp
next
  case (Cons gid gids)
  let ?ids = "if gid \<in> set ids then ids else ids @ [gid]"
  have data: "glyphData r gid \<noteq> None" and rest: "list_all (\<lambda>gid. glyphData r gid \<noteq> None) gids"
    using Cons.prems(2) by simp_all
  obtain st1 e where s1: "glyphStep cfg g r st gid = Inr st1" "allocated (loopAtlas st1) ?ids"
      "glyphs (loopAtlas st1) gid = Some e"
      "\<forall>x\<in>set ids. glyphs (loopAtlas st1) x = glyphs (loopAtlas st) x"
      "sdfTexture (loopAtlas st1) = sdfTexture (loopAtlas st)"
      "needsUpdate (loopAtlas st1) = needsUpdate (loopAtlas st)"
      "neededSDFs st1 = neededSDFs st @ (if gid \<in> set ids then [] else [e])"
      "atlasIndices st1 = atlasIndices st @ [atlasIndex e]"
      "length (glyphBounds st1) = length (glyphBounds st) + 4"
    using glyphStep_step [OF Cons.prems(1) data, of cfg g] by blast
  obtain st' where s': "forEachGlyph cfg g r st1 gids = (st', None)"
      "allocated (loopAtlas st') (firstSeenFrom ?ids gids)"
      "\<forall>x\<in>set ?ids. glyphs (loopAtlas st') x = glyphs (loopAtlas st1) x"
      "sdfTexture (loopAtlas st') = sdfTexture (loopAtlas st1)"
      "needsUpdate (loopAtlas st') = needsUpdate (loopAtlas st1)"
      "map Some (neededSDFs st')
         = map Some (neededSDFs st1)
           @ map (glyphs (loopAtlas st')) (drop (length ?ids) (firstSeenFrom ?ids gids))"
      "map Some (atlasIndices st')
         = map Some (atlasIndices st1)
           @ map (\<lambda>x. map_option atlasIndex (glyphs (loopAtlas st') x)) gids"
      "length (glyphBounds st') = length (glyphBounds st1) + 4 * length gids"
    using Cons.IH [OF s1(2) rest] by blast
  have gid_in: "gid \<in> set ?ids" by simp
  have e': "glyphs (loopAtlas st') gid = Some e" using s'(3) gid_in s1(3) by metis
  have 1: "forEachGlyph cfg g r st (gid # gids) = (st', None)" using s1(1) s'(1) by simp
  have 2: "allocated (loopAtlas st') (firstSeenFrom ids (gid # gids))" using s'(2) by simp
  have 3: "\<forall>x\<in>set ids. glyphs (loopAtlas st') x = glyphs (loopAtlas st) x"
    using s'(3) s1(4) by auto
  have 4: "map Some (neededSDFs st')
         = map Some (neededSDFs st)
           @ map (glyphs (loopAtlas st')) (drop (length ids) (firstSeenFrom ids (gid # gids)))"
  proof (cases "gid \<in> set ids")
    case True
    then show ?thesis using s'(6) s1(7) by simp
  next
    case False
    obtain zs where zs: "firstSeenFrom (ids @ [gid]) gids = (ids @ [gid]) @ zs"
      using firstSeenFrom_prefix by blast
    show ?thesis using False s'(6) s1(7) e' by (simp add: zs)
  qed
  have 5: "map Some (atlasIndices st')
         = map Some (atlasIndices st)
           @ map (\<lambda>x. map_option atlasIndex (glyphs (loopAtlas st') x)) (gid # gids)"
    using s'(7) s1(8) e' by simp
  have 6: "length (glyphBounds st') = length (glyphBounds st) + 4 * length (gid # gids)"
    using s'(8) s1(9) by simp
  show ?case using 1 2 3 4 5 6 s'(4,5) s1(5,6) by simp
qed

lemma requestLoop_alloc:
  assumes al: "allocated atl ids" and data: "dataComplete r"
  shows "\<exists>st. requestLoop cfg g atl r = (st, None)
            \<and> allocated (loopAtlas st) (firstSeenFrom ids (glyphIds r))
            \<and> (\<forall>x\<in>set ids. glyphs (loopAtlas st) x = glyphs atl x)
            \<and> sdfTexture (loopAtlas st) = sdfTexture atl
            \<and> needsUpdate (loopAtlas st) = needsUpdate atl
            \<and> map Some (neededSDFs st)
                = map (glyphs (loopAtlas st)) (drop (length ids) (firstSeenFrom ids (glyphIds r)))
            \<and> map Some (atlasIndices st)
                = map (\<lambda>x. map_option atlasIndex (glyphs (loopAtlas st) x)) (glyphIds r)
            \<and> length (glyphBounds st) = 4 * length (glyphIds r)"
proof -
  let ?st0 = "\<lparr>loopAtlas = atl, neededSDFs = [], glyphBounds = [], positionsIdx = 0, atlasIndices = []\<rparr>"
  have al0: "allocated (loopAtlas ?st0) ids" using al by simp
  have d: "list_all (\<lambda>gid. glyphData r gid \<noteq> None) (glyphIds r)"
    using data by (simp add: dataComplete_def)
  show ?thesis
    using forEachGlyph_alloc [OF al0 d, of cfg g] by (simp add: requestLoop_def)
qed

subsection \<open>The lifetime of an atlas\<close>

lemma atlasLifetime_Cons:
  "atlasLifetime cfg g atl (r # rs)
     = (fst (atlasLifetime cfg g (loopAtlas (fst (requestLoop cfg g atl r))) rs),
        requestLoop cfg g atl r # snd (atlasLifetime cfg g (loopAtlas (fst (requestLoop cfg g atl r))) rs))"
  by (simp add: Let_def case_prod_beta)

lemma finalAtlas_Nil: "finalAtlas cfg g atl [] = atl"
  by (simp add: finalAtlas_def)

lemma finalAtlas_Cons:
  "finalAtlas cfg g atl (r # rs) = finalAtlas cfg g (loopAtlas (fst (requestLoop cfg g atl r))) rs"
  by (simp add: finalAtlas_def atlasLifetime_Cons del: atlasLifetime.simps)

lemma finalAtlas_append:
  "finalAtlas cfg g atl (rs @ later) = finalAtlas cfg g (finalAtlas cfg g atl rs) later"
  by (induction rs arbitrary: atl) (simp_all add: finalAtlas_Nil finalAtlas_Cons)

lemma createdEntries_Nil: "createdEntries cfg g atl [] = []"
  by (simp add: createdEntries_def)

lemma createdEntries_Cons:
  "createdEntries cfg g atl (r # rs)
     = neededSDFs (fst (requestLoop cfg g atl r))
       @ createdEntries cfg g (loopAtlas (fst (requestLoop cfg g atl r))) rs"
  by (simp add: createdEntries_def atlasLifetime_Cons del: atlasLifetime.simps)

lemma requestedIds_Cons: "requestedIds (r # rs) = glyphIds r @ requestedIds rs"
  by (simp add: requestedIds_def)

lemma atlasLifetime_alloc:
  assumes "allocated atl ids" "list_all dataComplete rs"
  shows "allocated (finalAtlas cfg g atl rs) (firstSeenFrom ids (requestedIds rs))
       \<and> (\<forall>x\<in>set ids. glyphs (finalAtlas cfg g atl rs) x = glyphs atl x)
       \<and> list_all (\<lambda>out. snd out = None) (snd (atlasLifetime cfg g atl rs))
       \<and> map Some (createdEntries cfg g atl rs)
           = map (glyphs (finalAtlas cfg g atl rs))
               (drop (length ids) (firstSeenFrom ids (requestedIds rs)))
       \<and> map (\<lambda>out. map Some (atlasIndices (fst out))) (snd (atlasLifetime cfg g atl rs))
           = map (\<lambda>r. map (\<lambda>x. map_option atlasIndex (glyphs (finalAtlas cfg g atl rs) x)) (glyphIds r)) rs"
  using assms
proof (induction rs arbitrary: atl ids)
  case Nil
  then show ?case by (simp add: finalAtlas_Nil createdEntries_Nil requestedIds_def)
next
  case (Cons r rs)
  let ?ids1 = "firstSeenFrom ids (glyphIds r)"
  let ?F = "firstSeenFrom ids (requestedIds (r # rs))"
  have dr: "dataComplete r" and drs: "list_all dataComplete rs" using Cons.prems(2) by simp_all
  obtain st where st: "requestLoop cfg g atl r = (st, None)"
      "allocated (loopAtlas st) ?ids1"
      "\<forall>x\<in>set ids. glyphs (loopAtlas st) x = glyphs atl x"
      "map Some (neededSDFs st) = map (glyphs (loopAtlas st)) (drop (length ids) ?ids1)"
      "map Some (atlasIndices st) = map (\<lambda>x. map_option atlasIndex (glyphs (loopAtlas st) x)) (glyphIds r)"
    using requestLoop_alloc [OF Cons.prems(1) dr, of cfg g] by blast
  let ?fin = "finalAtlas cfg g (loopAtlas st) rs"
  have F: "?F = firstSeenFrom ?ids1 (requestedIds rs)"
    by (simp add: requestedIds_Cons firstSeenFrom_append)
  have ih: "allocated ?fin (firstSeenFrom ?ids1 (requestedIds rs))"
      "\<forall>x\<in>set ?ids1. glyphs ?fin x = glyphs (loopAtlas st) x"
      "list_all (\<lambda>out. snd out = None) (snd (atlasLifetime cfg g (loopAtlas st) rs))"
      "map Some (createdEntries cfg g (loopAtlas st) rs)
         = map (glyphs ?fin) (drop (length ?ids1) (firstSeenFrom ?ids1 (requestedIds rs)))"
      "map (\<lambda>out. map Some (atlasIndices (fst out))) (snd (atlasLifetime cfg g (loopAtlas st) rs))
         = map (\<lambda>r. map (\<lambda>x. map_option atlasIndex (glyphs ?fin x)) (glyphIds r)) rs"
    using Cons.IH [OF st(2) drs] by simp_all
  have fin: "finalAtlas cfg g atl (r # rs) = ?fin" by (simp add: finalAtlas_Cons st(1))
  have sub: "set ids \<subseteq> set ?ids1" "set (glyphIds r) \<subseteq> set ?ids1"
    by (simp_all add: firstSeenFrom_set)
  have 1: "allocated ?fin ?F" using ih(1) F by simp
  have 2: "\<forall>x\<in>set ids. glyphs ?fin x = glyphs atl x" using ih(2) st(3) sub(1) by auto
  have 3: "list_all (\<lambda>out. snd out = None) (snd (atlasLifetime cfg g atl (r # rs)))"
    using ih(3) st(1) by (simp add: atlasLifetime_Cons del: atlasLifetime.simps)
  obtain zs where zs: "firstSeenFrom ?ids1 (requestedIds rs) = ?ids1 @ zs"
    using firstSeenFrom_prefix by blast
  have le: "length ids \<le> length ?ids1" by (rule firstSeenFrom_length)
  have "map Some (neededSDFs st) = map (glyphs ?fin) (drop (length ids) ?ids1)"
  proof -
    have "\<forall>x\<in>set (drop (length ids) ?ids1). glyphs ?fin x = glyphs (loopAtlas st) x"
      using ih(2) by (meson in_set_dropD)
    then show ?thesis using st(4) by (simp cong: map_cong)
  qed
  then have 4: "map Some (createdEntries cfg g atl (r # rs))
         = map (glyphs ?fin) (drop (length ids) ?F)"
    using ih(4) le by (simp add: createdEntries_Cons st(1) F zs)
  have "map Some (atlasIndices st) = map (\<lambda>x. map_option atlasIndex (glyphs ?fin x)) (glyphIds r)"
  proof -
    have "\<forall>x\<in>set (glyphIds r). glyphs ?fin x = glyphs (loopAtlas st) x"
      using ih(2) sub(2) by blast
    then show ?thesis using st(5) by (simp cong: map_cong)
  qed
  then have 5: "map (\<lambda>out. map Some (atlasIndices (fst out))) (snd (atlasLifetime cfg g atl (r # rs)))
         = map (\<lambda>r. map (\<lambda>x. map_option atlasIndex (glyphs ?fin x)) (glyphIds r)) (r # rs)"
    using ih(5) st(1) by (simp add: atlasLifetime_Cons del: atlasLifetime.simps)
  show ?case unfolding fin using 1 2 3 4 5 by blast
qed

lemma allocated_indices:
  assumes "allocated atl ids"
  shows "map (\<lambda>x. map_option atlasIndex (glyphs atl x)) ids = map Some [0..<length ids]"
proof (rule nth_equalityI)
  show "length (map (\<lambda>x. map_option atlasIndex (glyphs atl x)) ids) = length (map Some [0..<length ids])"
    by simp
next
  fix i assume "i < length (map (\<lambda>x. map_option atlasIndex (glyphs atl x)) ids)"
  then have i: "i < length ids" by simp
  then have "map_option atlasIndex (glyphs atl (ids ! i)) = Some i"
    using assms unfolding allocated_def by blast
  then show "map (\<lambda>x. map_option atlasIndex (glyphs atl x)) ids ! i = map Some [0..<length ids] ! i"
    using i by simp
qed

subsection \<open>A fresh atlas\<close>

lemma firstSeen_rev_remdups: "firstSeen ids = rev (remdups (rev ids))"
  by (simp add: firstSeen_def firstSeen_remdups)

lemma lifetime_from_new:
  assumes "list_all dataComplete results"
  shows "allocated (finalAtlas cfg g (newAtlas g w) results) (firstSeen (requestedIds results))"
    and "map Some (createdEntries cfg g (newAtlas g w) results)
           = map (glyphs (finalAtlas cfg g (newAtlas g w) results)) (firstSeen (requestedIds results))"
    and "map (\<lambda>out. map Some (atlasIndices (fst out))) (snd (atlasLifetime cfg g (newAtlas g w) results))
           = map (\<lambda>r. map (\<lambda>x. map_option atlasIndex (glyphs (finalAtlas cfg g (newAtlas g w) results) x))
                          (glyphIds r)) results"
    and "list_all (\<lambda>out. snd out = None) (snd (atlasLifetime cfg g (newAtlas g w) results))"
  using atlasLifetime_alloc [OF allocated_new assms, of cfg g g w]
  by (simp_all add: firstSeen_def)

lemma entries_persist:
  assumes "list_all dataComplete results" "list_all dataComplete later"
    and "x \<in> set (requestedIds results)"
  shows "glyphs (finalAtlas cfg g (newAtlas g w) (results @ later)) x
       = glyphs (finalAtlas cfg g (newAtlas g w) results) x"
proof -
  have al: "allocated (finalAtlas cfg g (newAtlas g w) results) (firstSeen (requestedIds results))"
    by (rule lifetime_from_new(1) [OF assms(1)])
  have "x \<in> set (firstSeen (requestedIds results))"
    using assms(3) by (simp add: firstSeen_def firstSeenFrom_set)
  then show ?thesis
    using atlasLifetime_alloc [OF al assms(2), of cfg g] by (simp add: finalAtlas_append)
qed

lemma created_indices:
  assumes "list_all dataComplete results"
  shows "map atlasIndex (createdEntries cfg g (newAtlas g w) results)
       = [0..<length (firstSeen (requestedIds results))]"
proof -
  let ?fin = "finalAtlas cfg g (newAtlas g w) results"
  let ?ids = "firstSeen (requestedIds results)"
  have "map (map_option atlasIndex) (map Some (createdEntries cfg g (newAtlas g w) results))
      = map (\<lambda>x. map_option atlasIndex (glyphs ?fin x)) ?ids"
    by (simp add: lifetime_from_new(2) [OF assms])
  also have "\<dots> = map Some [0..<length ?ids]"
    by (rule allocated_indices [OF lifetime_from_new(1) [OF assms]])
  finally have "map Some (map atlasIndex (createdEntries cfg g (newAtlas g w) results))
              = map Some [0..<length ?ids]"
    by (simp add: comp_def)
  then show ?thesis by (rule map_injective) simp
qed

lemma AB_complete: "list_all dataComplete [typeset_AB, typeset_BA]"
  by (simp add: dataComplete_def typeset_AB_def typeset_BA_def glyphs_AB_def)

section \<open>Outside the documented configuration\<close>

text \<open>
  What the hypothesis of the claim about growth excludes: a buffer of length 0 (a texture
  width of 0) never leaves the growth loop.
\<close>

lemma growTexture_Some_nonempty:
  assumes "growTexture g s t = Some t'"
  shows "0 < g \<longrightarrow> 0 < length (data t)"
proof (rule growTexture.raw_induct
    [where P = "\<lambda>g s t t'. 0 < g \<longrightarrow> 0 < length (data t)", OF _ assms])
  fix grow :: "nat \<Rightarrow> nat \<Rightarrow> texImg \<Rightarrow> texImg option" and g s t t'
  assume ih: "\<And>g s t t'. grow g s t = Some t' \<Longrightarrow> 0 < g \<longrightarrow> 0 < length (data t)"
    and eq: "(if length (data t) < (s + 1) * g * g then grow g s (biggerTexture t) else Some t)
             = Some t'"
  show "0 < g \<longrightarrow> 0 < length (data t)"
  proof (cases "length (data t) < (s + 1) * g * g")
    case True
    then have "grow g s (biggerTexture t) = Some t'" using eq by simp
    then have "0 < g \<longrightarrow> 0 < length (data (biggerTexture t))" by (rule ih)
    then show ?thesis by (simp add: biggerTexture_length)
  next
    case False
    then have "(s + 1) * g * g \<le> length (data t)" by simp
    then show ?thesis by (cases "length (data t)") auto
  qed
qed

lemma growTexture_empty_never_returns:
  assumes "data t = []" "0 < g"
  shows "growTexture g s t = None"
proof (cases "growTexture g s t")
  case None
  then show ?thesis .
next
  case (Some t')
  then have "0 < length (data t)" using assms(2) growTexture_Some_nonempty by blast
  then show ?thesis using assms(1) by simp
qed

section \<open>Properties of the numbers\<close>

text \<open>
  \<open>exponent64\<close> is the floor of the binary logarithm, rounding moves a number by at most half
  a unit in the last place, and a number with a significand of 53 bits is not moved.
\<close>

lemma pow2_bitlen_le:
  assumes "0 < n"
  shows "(2 :: rat) powi (bitlen n - 1) \<le> of_int n"
proof -
  have b: "1 \<le> bitlen n" using assms by (auto simp: bitlen_alt_def)
  have "(2 :: int) ^ nat (bitlen n - 1) \<le> n" using bitlen_bounds [OF assms] by simp
  then have "(of_int ((2 :: int) ^ nat (bitlen n - 1)) :: rat) \<le> of_int n"
    by (simp only: of_int_le_iff)
  then show ?thesis using b by (simp add: power_int_def)
qed

lemma less_pow2_bitlen:
  assumes "0 < n"
  shows "(of_int n :: rat) < 2 powi bitlen n"
proof -
  have "n < (2 :: int) ^ nat (bitlen n)" using bitlen_bounds [OF assms] by simp
  then have "(of_int n :: rat) < of_int ((2 :: int) ^ nat (bitlen n))"
    by (simp only: of_int_less_iff)
  then show ?thesis using bitlen_nonneg [of n] by (simp add: power_int_def)
qed

lemma exponent64_lower:
  assumes "x \<noteq> 0"
  shows "2 powi exponent64 x \<le> \<bar>x\<bar>"
proof (cases "1 \<le> \<bar>x\<bar>")
  case True
  then have n: "0 < \<lfloor>\<bar>x\<bar>\<rfloor>" by linarith
  have "(2 :: rat) powi (bitlen \<lfloor>\<bar>x\<bar>\<rfloor> - 1) \<le> of_int \<lfloor>\<bar>x\<bar>\<rfloor>" by (rule pow2_bitlen_le [OF n])
  also have "\<dots> \<le> \<bar>x\<bar>" by simp
  finally show ?thesis using True by (simp add: exponent64_def)
next
  case False
  let ?y = "1 / \<bar>x\<bar>"
  let ?c = "\<lceil>?y\<rceil> - 1"
  have y: "1 < ?y" using False assms by simp
  then have c: "0 < ?c" by linarith
  have "?y \<le> of_int \<lceil>?y\<rceil>" by simp
  also have "\<dots> = of_int ?c + 1" by simp
  also have "\<dots> \<le> 2 powi bitlen ?c"
  proof -
    have "?c < (2 :: int) ^ nat (bitlen ?c)" using bitlen_bounds [OF c] by simp
    then have "?c + 1 \<le> (2 :: int) ^ nat (bitlen ?c)" by simp
    then have "(of_int (?c + 1) :: rat) \<le> of_int ((2 :: int) ^ nat (bitlen ?c))"
      by (simp only: of_int_le_iff)
    then show ?thesis using bitlen_nonneg [of ?c] by (simp add: power_int_def)
  qed
  finally have "?y \<le> 2 powi bitlen ?c" .
  then have "inverse (2 powi bitlen ?c) \<le> inverse ?y"
    using y by (intro le_imp_inverse_le) auto
  then have "2 powi (- bitlen ?c) \<le> \<bar>x\<bar>"
    by (simp add: power_int_minus)
  then show ?thesis using False by (simp add: exponent64_def)
qed

lemma exponent64_upper: "\<bar>x\<bar> < 2 powi (exponent64 x + 1)"
proof (cases "1 \<le> \<bar>x\<bar>")
  case True
  then have n: "0 < \<lfloor>\<bar>x\<bar>\<rfloor>" by linarith
  have "\<lfloor>\<bar>x\<bar>\<rfloor> < (2 :: int) ^ nat (bitlen \<lfloor>\<bar>x\<bar>\<rfloor>)" using bitlen_bounds [OF n] by simp
  then have "\<lfloor>\<bar>x\<bar>\<rfloor> + 1 \<le> (2 :: int) ^ nat (bitlen \<lfloor>\<bar>x\<bar>\<rfloor>)" by simp
  then have "(of_int (\<lfloor>\<bar>x\<bar>\<rfloor> + 1) :: rat) \<le> of_int ((2 :: int) ^ nat (bitlen \<lfloor>\<bar>x\<bar>\<rfloor>))"
    by (simp only: of_int_le_iff)
  then have "(of_int \<lfloor>\<bar>x\<bar>\<rfloor> + 1 :: rat) \<le> 2 powi bitlen \<lfloor>\<bar>x\<bar>\<rfloor>"
    using bitlen_nonneg [of "\<lfloor>\<bar>x\<bar>\<rfloor>"] by (simp add: power_int_def)
  moreover have "\<bar>x\<bar> < of_int \<lfloor>\<bar>x\<bar>\<rfloor> + 1" by linarith
  ultimately show ?thesis using True by (simp add: exponent64_def)
next
  case False
  show ?thesis
  proof (cases "x = 0")
    case True
    then show ?thesis by (simp add: exponent64_def bitlen_alt_def)
  next
    case nz: False
    let ?y = "1 / \<bar>x\<bar>"
    let ?c = "\<lceil>?y\<rceil> - 1"
    have y: "1 < ?y" using False nz by simp
    then have c: "0 < ?c" by linarith
    have "(2 :: rat) powi (bitlen ?c - 1) \<le> of_int ?c" by (rule pow2_bitlen_le [OF c])
    also have "\<dots> < ?y" by linarith
    finally have lt: "(2 :: rat) powi (bitlen ?c - 1) < ?y" .
    have pos: "(0 :: rat) < 2 powi (bitlen ?c - 1)" by simp
    have "inverse ?y < inverse (2 powi (bitlen ?c - 1))"
      using lt pos by (intro less_imp_inverse_less)
    then have "\<bar>x\<bar> < 2 powi (- (bitlen ?c - 1))"
      by (simp only: power_int_minus) simp
    then show ?thesis using False by (simp add: exponent64_def)
  qed
qed

lemma roundTiesToEven_error: "\<bar>of_int (roundTiesToEven y) - y\<bar> \<le> 1 / 2"
proof -
  have "of_int \<lfloor>y\<rfloor> \<le> y" "y < of_int \<lfloor>y\<rfloor> + 1" by linarith+
  then show ?thesis by (auto simp: roundTiesToEven_def Let_def)
qed

lemma roundTiesToEven_of_int: "roundTiesToEven (of_int n) = n"
  by (simp add: roundTiesToEven_def)

lemma round64_error: "\<bar>round64 x - x\<bar> \<le> \<bar>x\<bar> / 2 ^ 53 + 1 / 2 ^ 1075"
proof -
  let ?E = "max (exponent64 x) (- 1022) - 52"
  let ?ulp = "(2 :: rat) powi ?E"
  have pos: "0 < ?ulp" by simp
  have "round64 x - x = (of_int (roundTiesToEven (x / ?ulp)) - x / ?ulp) * ?ulp"
    using pos by (simp add: round64_def Let_def field_simps)
  then have "\<bar>round64 x - x\<bar> = \<bar>of_int (roundTiesToEven (x / ?ulp)) - x / ?ulp\<bar> * ?ulp"
    using pos by (simp add: abs_mult)
  also have "\<dots> \<le> 1 / 2 * ?ulp"
    using roundTiesToEven_error [of "x / ?ulp"] pos by (intro mult_right_mono) auto
  finally have half: "\<bar>round64 x - x\<bar> \<le> ?ulp / 2" by simp
  show ?thesis
  proof (cases "x = 0")
    case True
    then show ?thesis by (simp add: round64_def roundTiesToEven_def)
  next
    case False
    show ?thesis
    proof (cases "- 1022 \<le> exponent64 x")
      case True
      then have "?ulp / 2 = 2 powi (exponent64 x) / 2 ^ 53"
        by (simp add: max_def power_int_diff)
      also have "\<dots> \<le> \<bar>x\<bar> / 2 ^ 53"
        using exponent64_lower [OF False] by (intro divide_right_mono) auto
      finally have a: "\<bar>round64 x - x\<bar> \<le> \<bar>x\<bar> / 2 ^ 53" using half by (rule order_trans [rotated])
      have b: "(0 :: rat) \<le> 1 / 2 ^ 1075" by simp
      show ?thesis by (rule add_increasing2 [OF b a])
    next
      case False
      then have "?ulp / 2 = 1 / 2 ^ 1075"
        by (simp add: max_def power_int_minus field_simps)
      then have a: "\<bar>round64 x - x\<bar> \<le> 1 / 2 ^ 1075" using half by (simp only:)
      have b: "0 \<le> \<bar>x\<bar> / 2 ^ 53" by simp
      show ?thesis by (rule add_increasing [OF b a])
    qed
  qed
qed

lemma pow2_shift: "(x / 2 ^ n) / 2 powi E = x * (2 :: rat) powi (- int n - E)"
proof -
  have "(2 :: rat) powi (- int n - E) = 2 powi (- int n) * 2 powi (- E)"
    using power_int_add [of "2 :: rat" "- int n" "- E"] by simp
  then show ?thesis by (simp add: power_int_minus divide_inverse)
qed

lemma round64_exact:
  assumes k: "\<bar>k\<bar> < 2 ^ 53" and n: "n \<le> 1074"
  shows "round64 (of_int k / 2 ^ n) = of_int k / 2 ^ n"
proof (cases "k = 0")
  case True
  then show ?thesis by (simp add: round64_def roundTiesToEven_def)
next
  case False
  let ?x = "of_int k / 2 ^ n :: rat"
  let ?E = "max (exponent64 ?x) (- 1022) - 52"
  have x: "?x \<noteq> 0" using False by simp
  have "\<bar>?x\<bar> < 2 powi (53 - int n)"
  proof -
    have "(of_int \<bar>k\<bar> :: rat) < of_int (2 ^ 53)" using k by (simp only: of_int_less_iff)
    then have "\<bar>of_int k :: rat\<bar> < 2 ^ 53" by simp
    then have "\<bar>?x\<bar> < 2 ^ 53 / 2 ^ n" by (simp add: abs_divide divide_strict_right_mono)
    then show ?thesis by (simp add: power_int_diff)
  qed
  then have "(2 :: rat) powi exponent64 ?x < 2 powi (53 - int n)"
    using exponent64_lower [OF x] by linarith
  then have "exponent64 ?x < 53 - int n"
    using power_int_increasing [of "53 - int n" "exponent64 ?x" "2 :: rat"] by fastforce
  then have E: "?E \<le> - int n" using n by (simp add: max_def)
  then obtain j :: nat where j: "- int n - ?E = int j"
    by (metis diff_ge_0_iff_ge nonneg_int_cases)
  have "?x / 2 powi ?E = of_int k * 2 powi (- int n - ?E)"
    by (rule pow2_shift)
  also have "\<dots> = of_int (k * 2 ^ j)" by (simp only: j) simp
  finally have "roundTiesToEven (?x / 2 powi ?E) = k * 2 ^ j"
    by (simp only: roundTiesToEven_of_int)
  then have "round64 ?x = of_int (k * 2 ^ j) * 2 powi ?E" by (simp add: round64_def Let_def)
  also have "\<dots> = of_int k * (2 powi (- int n - ?E) * 2 powi ?E)" by (simp only: j) simp
  also have "2 powi (- int n - ?E) * (2 :: rat) powi ?E = 2 powi (- int n)"
    by (simp flip: power_int_add)
  finally show ?thesis by (simp add: power_int_minus field_simps)
qed

text \<open>The margin, the view box and the distance of the example glyphs.\<close>

lemma fontUnitsMargin_AA:
  assumes "sdfMargin cfg = 1 / 16"
  shows "fontUnitsMargin cfg 32 (0, 0, 100, 100) = 125 / 16"
    and "fontUnitsMargin cfg 32 (0, 0, 100, 60) = 125 / 16"
proof -
  have "js_mul (js_div (max (js_sub 100 0) (js_sub 100 0)) (of_nat 32))
               (js_add (js_mul (1 / 16) (of_nat 32)) (1 / 2)) = 125 / 16"
    by code_simp
  then show "fontUnitsMargin cfg 32 (0, 0, 100, 100) = 125 / 16"
    by (simp only: fontUnitsMargin_def assms prod.case)
  have "js_mul (js_div (max (js_sub 100 0) (js_sub 60 0)) (of_nat 32))
               (js_add (js_mul (1 / 16) (of_nat 32)) (1 / 2)) = 125 / 16"
    by code_simp
  then show "fontUnitsMargin cfg 32 (0, 0, 100, 60) = 125 / 16"
    by (simp only: fontUnitsMargin_def assms prod.case)
qed

lemma expandBounds_AA:
  "expandBounds (0, 0, 100, 100) (125 / 16) = (- (125 / 16), - (125 / 16), 1725 / 16, 1725 / 16)"
  "expandBounds (0, 0, 100, 60) (125 / 16) = (- (125 / 16), - (125 / 16), 1725 / 16, 1085 / 16)"
  by code_simp+

lemma maxDist_AA:
  "maxDist (- (125 / 16), - (125 / 16), 1725 / 16, 1725 / 16) = 925 / 8"
  "maxDist (- (125 / 16), - (125 / 16), 1725 / 16, 1085 / 16) = 925 / 8"
  by code_simp+

text \<open>
  The rounded width of a view box against the exact one, and the example with a margin
  of \<open>0.1\<close>.
\<close>

lemma sum_of_bounds:
  fixes A B X2 X0 V2 V0 D UA UB h :: rat
  assumes "X2 \<le> UA + h" "X0 \<le> UB + h" "UA \<le> A" "UB \<le> B"
    and "V2 \<le> A + X2" "V0 \<le> B + X0" "D \<le> V2 + V0"
  shows "D \<le> 2 * A + 2 * B + 2 * h"
  using assms by arith

lemma sum_of_errors:
  fixes X2 X0 XW UA UB UD UH T h :: rat
  assumes "X2 \<le> UA + h" "X0 \<le> UB + h" "XW \<le> UD + h"
    and "UD \<le> 2 * UA + 2 * UB + 2 * UH" "2 * UH \<le> h" "T \<le> XW + X2 + X0"
  shows "T \<le> 3 * UA + 3 * UB + 4 * h"
  using assms by arith

lemma le_add_mono:
  fixes a b c h :: rat
  assumes "a \<le> b + h" "b \<le> c"
  shows "a \<le> c + h"
  using assms by arith

lemma rounded_difference:
  "\<bar>js_sub (js_add p m) (js_sub n m) - ((p - n) + 2 * m)\<bar>
     \<le> 3 / 2 ^ 53 * (\<bar>p + m\<bar> + \<bar>n - m\<bar>) + 4 / 2 ^ 1075"
proof -
  define u :: rat where "u = 1 / 2 ^ 53"
  define h :: rat where "h = 1 / 2 ^ 1075"
  let ?a = "p + m" and ?b = "n - m"
  let ?v2 = "round64 ?a" and ?v0 = "round64 ?b"
  let ?w = "round64 (?v2 - ?v0)"
  have u: "0 \<le> u" "u \<le> 1" and h: "0 \<le> h" by (simp_all add: u_def h_def)
  have e2: "\<bar>?v2 - ?a\<bar> \<le> u * \<bar>?a\<bar> + h"
    using round64_error [of ?a] by (simp add: u_def h_def)
  have e0: "\<bar>?v0 - ?b\<bar> \<le> u * \<bar>?b\<bar> + h"
    using round64_error [of ?b] by (simp add: u_def h_def)
  have ew: "\<bar>?w - (?v2 - ?v0)\<bar> \<le> u * \<bar>?v2 - ?v0\<bar> + h"
    using round64_error [of "?v2 - ?v0"] by (simp add: u_def h_def)
  have ua: "u * \<bar>?a\<bar> \<le> \<bar>?a\<bar>" and ub: "u * \<bar>?b\<bar> \<le> \<bar>?b\<bar>"
    using u by (simp_all add: mult_left_le_one_le)
  have t2: "\<bar>?v2\<bar> \<le> \<bar>?a\<bar> + \<bar>?v2 - ?a\<bar>" by linarith
  have t0: "\<bar>?v0\<bar> \<le> \<bar>?b\<bar> + \<bar>?v0 - ?b\<bar>" by linarith
  have td: "\<bar>?v2 - ?v0\<bar> \<le> \<bar>?v2\<bar> + \<bar>?v0\<bar>" by linarith
  have d: "\<bar>?v2 - ?v0\<bar> \<le> 2 * \<bar>?a\<bar> + 2 * \<bar>?b\<bar> + 2 * h"
    by (rule sum_of_bounds [OF e2 e0 ua ub t2 t0 td])
  have "u * \<bar>?v2 - ?v0\<bar> \<le> u * (2 * \<bar>?a\<bar> + 2 * \<bar>?b\<bar> + 2 * h)"
    using d u(1) by (rule mult_left_mono)
  also have "\<dots> = 2 * (u * \<bar>?a\<bar>) + 2 * (u * \<bar>?b\<bar>) + 2 * (u * h)" by (simp add: algebra_simps)
  finally have ud: "u * \<bar>?v2 - ?v0\<bar> \<le> 2 * (u * \<bar>?a\<bar>) + 2 * (u * \<bar>?b\<bar>) + 2 * (u * h)" .
  have uh: "2 * (u * h) \<le> h" using h by (simp add: u_def)
  have tw: "\<bar>?w - (?a - ?b)\<bar> \<le> \<bar>?w - (?v2 - ?v0)\<bar> + \<bar>?v2 - ?a\<bar> + \<bar>?v0 - ?b\<bar>"
    by linarith
  have "\<bar>?w - (?a - ?b)\<bar> \<le> 3 * (u * \<bar>?a\<bar>) + 3 * (u * \<bar>?b\<bar>) + 4 * h"
    by (rule sum_of_errors [OF e2 e0 ew ud uh tw])
  moreover have "?a - ?b = (p - n) + 2 * m" by simp
  moreover have "3 * (u * \<bar>?a\<bar>) + 3 * (u * \<bar>?b\<bar>) + 4 * h
               = 3 / 2 ^ 53 * (\<bar>?a\<bar> + \<bar>?b\<bar>) + 4 / 2 ^ 1075"
    by (simp add: u_def h_def algebra_simps)
  ultimately show ?thesis by (simp only: js_sub_def js_add_def)
qed

lemma max_difference:
  fixes a b c d :: rat
  shows "\<bar>max a b - max c d\<bar> \<le> max \<bar>a - c\<bar> \<bar>b - d\<bar>"
  by (simp add: max_def abs_if) linarith?

lemma round64_wide:
  "round64 76 = 76"
  "round64 10 = 10"
  "round64 (19 / 16) = 19 / 16"
  "round64 (3602879701896397 / 562949953421312) = 3602879701896397 / 562949953421312"
  "round64 (3884354678607053 / 562949953421312) = 3884354678607053 / 562949953421312"
  "round64 (73802738893534007 / 9007199254740992) = 4612671180845875 / 562949953421312"
  "round64 (- (4612671180845875 / 562949953421312)) = - (4612671180845875 / 562949953421312)"
  "round64 (47396867640865587 / 562949953421312) = 2962304227554099 / 35184372088832"
  "round64 (10242170715058995 / 562949953421312) = 2560542678764749 / 140737488355328"
  "round64 (52009538821711459 / 562949953421312) = 1625298088178483 / 17592186044416"
  "round64 (14854841895904871 / 562949953421312) = 1856855236988109 / 70368744177664"
  "round64 (4612671180845875 / 281474976710656) = 4612671180845875 / 281474976710656"
  "round64 (26004769410855731 / 281474976710656) = 6501192352713933 / 70368744177664"
  by code_simp+

lemma fontUnitsMargin_wide:
  "fontUnitsMargin config_tenth 64 (0, 0, 76, 10) = 4612671180845875 / 562949953421312"
  by (simp add: fontUnitsMargin_def config_tenth_def js_add_def js_sub_def js_mul_def js_div_def
      round64_wide)

lemma expandBounds_wide:
  "expandBounds (0, 0, 76, 10) (4612671180845875 / 562949953421312)
     = (- (4612671180845875 / 562949953421312), - (4612671180845875 / 562949953421312),
        2962304227554099 / 35184372088832, 2560542678764749 / 140737488355328)"
  by (simp add: expandBounds_def js_add_def js_sub_def round64_wide)

lemma maxDist_wide:
  "maxDist (- (4612671180845875 / 562949953421312), - (4612671180845875 / 562949953421312),
            2962304227554099 / 35184372088832, 2560542678764749 / 140737488355328)
     = 1625298088178483 / 17592186044416"
  by (simp add: maxDist_def js_sub_def round64_wide)

lemma allocationFinite_wide: "allocationFinite config_tenth 64 (0, 0, 76, 10)"
  by (simp add: allocationFinite_def config_tenth_def expandBounds_def finite64_def
      js_add_def js_sub_def js_mul_def js_div_def round64_wide)

lemma allocateSlot_wide:
  "allocateSlot config_tenth 64 glyphs_wide (newAtlas 64 2048) 36
     = Inr ((newAtlas 64 2048)\<lparr>count := 1, glyphs := [36 \<mapsto> entry_wide]\<rparr>, entry_wide, True)"
  by (simp add: allocateSlot_def newAtlas_def glyphs_wide_def entry_wide_def Let_def
      fontUnitsMargin_wide expandBounds_wide)

lemma maxDistance_wide:
  "maxDistance (sdfTaskOf config_tenth 64 entry_wide) = 1625298088178483 / 17592186044416"
  by (simp add: sdfTaskOf_def entry_wide_def maxDist_wide)

section \<open>Properties of the request and of the configuration\<close>

lemma copyResults_Nil: "copyResults g atl [] = Some atl"
  by (simp add: copyResults_def)

lemma copyResults_ok:
  assumes "texture_ok g (sdfTexture atl)"
  shows "\<exists>atl'. copyResults g atl rs = Some atl' \<and> count atl' = count atl \<and> glyphs atl' = glyphs atl"
proof (cases "rs = []")
  case True
  then show ?thesis by (simp add: copyResults_def)
next
  case False
  obtain tex where "writeSlots g (sdfTexture atl) rs = Some tex"
    using writeSlots_effect [OF assms, of rs] by blast
  then show ?thesis using False by (simp add: copyResults_def)
qed

lemma issueRequest_state:
  assumes "issueRequest e m a = (m1, params, atl)"
  shows "hasRequested m1" "CONFIG m1 = CONFIG m" "warnings m1 = warnings m"
    "sdfCalls m1 = sdfCalls m" "params = normalizeArgs e (CONFIG m) a"
    "atlases m1 (font params, paramSdfGlyphSize params) = Some atl"
  using assms by (auto simp: issueRequest_def Let_def)

lemma issueRequest_new_key:
  assumes "atlases m (font (normalizeArgs e (CONFIG m) a),
                      paramSdfGlyphSize (normalizeArgs e (CONFIG m) a)) = None"
  shows "issueRequest e m a
       = (m\<lparr>hasRequested := True,
             atlases := (atlases m)
               ((font (normalizeArgs e (CONFIG m) a), paramSdfGlyphSize (normalizeArgs e (CONFIG m) a))
                  \<mapsto> newAtlas (paramSdfGlyphSize (normalizeArgs e (CONFIG m) a))
                               (textureWidth (CONFIG m)))\<rparr>,
          normalizeArgs e (CONFIG m) a,
          newAtlas (paramSdfGlyphSize (normalizeArgs e (CONFIG m) a)) (textureWidth (CONFIG m)))"
  using assms by (simp add: issueRequest_def Let_def)

lemma getTextRenderInfo_completes:
  assumes issue: "issueRequest e m a = (m1, params, atl)"
    and loop: "requestLoop (CONFIG m) (paramSdfGlyphSize params) atl (typesetInWorker e params)
               = (st, None)"
    and copy: "copyResults (paramSdfGlyphSize params) (loopAtlas st)
            (map (\<lambda>glyphInfo. (atlasIndex glyphInfo,
                    generateSDFInWorker e (sdfTaskOf (CONFIG m) (paramSdfGlyphSize params) glyphInfo)))
               (neededSDFs st)) = Some atl'"
  shows "\<exists>m' info. getTextRenderInfo e m a = Some (m', Inr info)
           \<and> hasRequested m' \<and> CONFIG m' = CONFIG m \<and> warnings m' = warnings m
           \<and> sdfCalls m' = sdfCalls m
                @ map (sdfTaskOf (CONFIG m) (paramSdfGlyphSize params)) (neededSDFs st)
           \<and> infoGlyphBounds info = glyphBounds st
           \<and> glyphAtlasIndices info = atlasIndices st
           \<and> infoTexture info = sdfTexture atl'"
  using loop copy issueRequest_state [OF issue]
  by (simp add: getTextRenderInfo_def issue Let_def)

lemma getTextRenderInfo_hasRequested:
  assumes "getTextRenderInfo e m a = Some (m', r)"
  shows "hasRequested m' \<and> CONFIG m' = CONFIG m \<and> warnings m' = warnings m"
proof -
  obtain m1 params atl where issue: "issueRequest e m a = (m1, params, atl)"
    by (metis prod_cases3)
  show ?thesis
    using assms issueRequest_state(1-3) [OF issue]
    by (auto simp: getTextRenderInfo_def issue Let_def split: prod.splits option.splits)
qed

lemma config_32_128_CONFIG:
  "CONFIG (configureTextBuilder initialModule config_32_128)
     = CONFIG_initial\<lparr>sdfGlyphSize := 32, textureWidth := 128\<rparr>"
  by (simp add: configureTextBuilder_def initialModule_def assign_def config_32_128_def
      CONFIG_initial_def)

lemma requestLoop_AA:
  "requestLoop (CONFIG_initial\<lparr>sdfGlyphSize := 32, textureWidth := 128\<rparr>) 32 (newAtlas 32 128) typeset_AA
     = (\<lparr>loopAtlas = (newAtlas 32 128)\<lparr>count := 1, glyphs := [36 \<mapsto>
            \<lparr>path = ''A'', atlasIndex = 0,
             sdfViewBox = (0 - 125 / 16, 0 - 125 / 16, 100 + 125 / 16, 100 + 125 / 16)\<rparr>]\<rparr>,
         neededSDFs = [\<lparr>path = ''A'', atlasIndex = 0,
             sdfViewBox = (0 - 125 / 16, 0 - 125 / 16, 100 + 125 / 16, 100 + 125 / 16)\<rparr>],
         glyphBounds = [Some (- (5 / 64)), Some (- (5 / 64)), Some (69 / 64), Some (69 / 64),
                        Some (443 / 64), Some (- (5 / 64)), Some (517 / 64), Some (69 / 64)],
         positionsIdx = 4,
         atlasIndices = [0, 0]\<rparr>, None)"
proof -
  have m: "sdfMargin (CONFIG_initial\<lparr>sdfGlyphSize := 32, textureWidth := 128\<rparr>) = 1 / 16"
    by (simp add: CONFIG_initial_def)
  show ?thesis
    by (simp add: requestLoop_def typeset_AA_def glyphStep_def allocateSlot_def newAtlas_def
        fontUnitsMargin_AA [OF m] expandBounds_AA fontSizeMult_def position_at_def
        quadCoord_def Let_def)
qed

lemma configure_keeps_hasRequested:
  "hasRequested (configureTextBuilder m c) = hasRequested m"
  by (simp add: configureTextBuilder_def)

lemma configures_before_request:
  assumes "\<not> hasRequested m"
  shows "foldl configureTextBuilder m cs = m\<lparr>CONFIG := foldl assign (CONFIG m) cs\<rparr>"
  using assms
proof (induction cs arbitrary: m)
  case Nil
  then show ?case by simp
next
  case (Cons c cs)
  let ?m = "configureTextBuilder m c"
  have h: "\<not> hasRequested ?m" using Cons.prems by (simp add: configure_keeps_hasRequested)
  have m: "?m = m\<lparr>CONFIG := assign (CONFIG m) c\<rparr>"
    using Cons.prems by (simp add: configureTextBuilder_def)
  show ?case using Cons.IH [OF h] by (simp add: m)
qed

lemma assign_fields:
  "defaultFontURL (assign cfg c)
     = (case opt_defaultFontURL c of Some v \<Rightarrow> v | None \<Rightarrow> defaultFontURL cfg)"
  "sdfGlyphSize (assign cfg c)
     = (case opt_sdfGlyphSize c of Some v \<Rightarrow> v | None \<Rightarrow> sdfGlyphSize cfg)"
  "sdfMargin (assign cfg c)
     = (case opt_sdfMargin c of Some v \<Rightarrow> v | None \<Rightarrow> sdfMargin cfg)"
  "sdfExponent (assign cfg c)
     = (case opt_sdfExponent c of Some v \<Rightarrow> v | None \<Rightarrow> sdfExponent cfg)"
  "textureWidth (assign cfg c)
     = (case opt_textureWidth c of Some v \<Rightarrow> v | None \<Rightarrow> textureWidth cfg)"
  by (simp_all add: assign_def)

lemma configure_after:
  assumes "hasRequested m"
  shows "configureTextBuilder m c = m\<lparr>warnings := warnings m @ [ignoredWarning]\<rparr>"
  using assms by (simp add: configureTextBuilder_def ignoredWarning_def)

lemma perform_after:
  assumes "hasRequested m" "perform m c = Some m'"
  shows "hasRequested m' \<and> CONFIG m' = CONFIG m
       \<and> warnings m' = warnings m @ (if isConfigure c then [ignoredWarning] else [])"
proof (cases c)
  case (Configure o)
  then show ?thesis using assms by (auto simp: configure_after)
next
  case (Issue e a)
  obtain m1 params atl where issue: "issueRequest e m a = (m1, params, atl)"
    by (metis prod_cases3)
  show ?thesis using assms Issue issueRequest_state(1-3) [OF issue] by (auto simp: issue)
next
  case (Request e a)
  then obtain r where "getTextRenderInfo e m a = Some (m', r)" using assms(2) by auto
  then show ?thesis using getTextRenderInfo_hasRequested Request by auto
qed

lemma performAll_after:
  assumes "hasRequested m" "performAll m cs = Some m'"
  shows "hasRequested m' \<and> CONFIG m' = CONFIG m
       \<and> warnings m' = warnings m @ replicate (length (filter isConfigure cs)) ignoredWarning"
  using assms
proof (induction cs arbitrary: m)
  case Nil
  then show ?case by simp
next
  case (Cons c cs)
  then obtain m1 where m1: "perform m c = Some m1" "performAll m1 cs = Some m'"
    by (auto split: option.splits)
  have s: "hasRequested m1" "CONFIG m1 = CONFIG m"
      "warnings m1 = warnings m @ (if isConfigure c then [ignoredWarning] else [])"
    using perform_after [OF Cons.prems(1) m1(1)] by simp_all
  show ?case using Cons.IH [OF s(1) m1(2)] s(2,3) by (simp add: replicate_app_Cons_same)
qed

lemma performAll_append:
  "performAll m (xs @ ys) = (case performAll m xs of None \<Rightarrow> None | Some m' \<Rightarrow> performAll m' ys)"
  by (induction xs arbitrary: m) (auto split: option.splits)

lemma performAll_configures:
  "performAll m (map Configure cs) = Some (foldl configureTextBuilder m cs)"
  by (induction cs arbitrary: m) simp_all

lemma perform_request:
  assumes "\<not> isConfigure c" "perform m c = Some m'"
  shows "hasRequested m' \<and> CONFIG m' = CONFIG m \<and> warnings m' = warnings m"
proof (cases c)
  case (Configure o)
  then show ?thesis using assms by simp
next
  case (Issue e a)
  obtain m1 params atl where issue: "issueRequest e m a = (m1, params, atl)"
    by (metis prod_cases3)
  show ?thesis using assms Issue issueRequest_state(1-3) [OF issue] by (auto simp: issue)
next
  case (Request e a)
  then obtain r where "getTextRenderInfo e m a = Some (m', r)" using assms(2) by auto
  then show ?thesis using getTextRenderInfo_hasRequested Request by auto
qed

lemma getTextRenderInfo_empty:
  assumes "glyphIds (typesetInWorker e (normalizeArgs e (CONFIG m) a)) = []"
  shows "\<exists>m' info. getTextRenderInfo e m a = Some (m', Inr info)"
proof -
  obtain m1 params atl where issue: "issueRequest e m a = (m1, params, atl)"
    by (metis prod_cases3)
  let ?st = "\<lparr>loopAtlas = atl, neededSDFs = [], glyphBounds = [], positionsIdx = 0,
              atlasIndices = []\<rparr>"
  have ids: "glyphIds (typesetInWorker e params) = []"
    using assms issueRequest_state(5) [OF issue] by simp
  have loop: "requestLoop (CONFIG m) (paramSdfGlyphSize params) atl (typesetInWorker e params)
            = (?st, None)"
    by (simp add: requestLoop_def ids)
  have copy: "copyResults (paramSdfGlyphSize params) (loopAtlas ?st)
            (map (\<lambda>glyphInfo. (atlasIndex glyphInfo,
                    generateSDFInWorker e (sdfTaskOf (CONFIG m) (paramSdfGlyphSize params) glyphInfo)))
               (neededSDFs ?st)) = Some atl"
    by (simp add: copyResults_Nil)
  show ?thesis
    using getTextRenderInfo_completes [OF issue loop copy] by auto
qed

section \<open>Claims about the texture\<close>

text \<open>
  Claim C2. Growing a non-empty buffer copies every byte to the same offset of the new buffer
  and fills the rest with zeros, however many doublings the loop makes; the texture keeps its
  width, so every slot that lay wholly inside the old buffer is read back as it was. Hence,
  when the texture width is a positive multiple of the glyph size, after writing any slots,
  each once and in any order, with whatever growth the writes force on the way, every slot
  reads back the bytes written to it.
\<close>

theorem growth_preserves_written_bytes:
  assumes nonempty: "data t \<noteq> []"
  shows "(\<exists>t'. growTexture g s t = Some t'
            \<and> width t' = width t
            \<and> length (data t) \<le> length (data t')
            \<and> take (length (data t)) (data t') = data t
            \<and> drop (length (data t)) (data t') = replicate (length (data t') - length (data t)) 0
            \<and> (\<forall>s'. None \<notin> set (readSlot g t s') \<longrightarrow> readSlot g t' s' = readSlot g t s'))
       \<and> (texture_ok g t \<longrightarrow>
             (\<forall>ws. distinct (map fst ws) \<and> list_all (\<lambda>w. length (snd w) = g * g) ws \<longrightarrow>
                (\<exists>t'. writeSlots g t ws = Some t'
                   \<and> list_all (\<lambda>w. readSlot g t' (fst w) = map Some (snd w)) ws)))"
proof -
  have "0 < length (data t)" using nonempty by simp
  then obtain k where k: "growTexture g s t = Some ((biggerTexture ^^ k) t)"
    using growTexture_doubles by blast
  let ?t' = "(biggerTexture ^^ k) t"
  have "width ?t' = width t" by (rule doubled_width)
  moreover have "length (data t) \<le> length (data ?t')" by (simp add: doubled_length)
  moreover have "take (length (data t)) (data ?t') = data t" by (simp add: doubled_data)
  moreover have "drop (length (data t)) (data ?t')
               = replicate (length (data ?t') - length (data t)) 0"
    by (simp add: doubled_data)
  moreover have "\<forall>s'. None \<notin> set (readSlot g t s') \<longrightarrow> readSlot g ?t' s' = readSlot g t s'"
    using readSlot_doubled_any by blast
  ultimately have 1: "\<exists>t'. growTexture g s t = Some t'
            \<and> width t' = width t
            \<and> length (data t) \<le> length (data t')
            \<and> take (length (data t)) (data t') = data t
            \<and> drop (length (data t)) (data t') = replicate (length (data t') - length (data t)) 0
            \<and> (\<forall>s'. None \<notin> set (readSlot g t s') \<longrightarrow> readSlot g t' s' = readSlot g t s')"
    using k by simp
  have 2: "\<exists>t'. writeSlots g t ws = Some t'
                \<and> list_all (\<lambda>w. readSlot g t' (fst w) = map Some (snd w)) ws"
    if "texture_ok g t" "distinct (map fst ws) \<and> list_all (\<lambda>w. length (snd w) = g * g) ws" for ws
    using writeSlots_read_back [OF that(1), of ws] that(2) by (auto simp: list_all_iff)
  show ?thesis using 1 2 by blast
qed

theorem growth_preserves_written_bytes_witness:
  "data \<lparr>data = [5, 6, 7, 8], width = 1, height = 1\<rparr> \<noteq> []
   \<and> texture_ok 1 \<lparr>data = [5, 6, 7, 8], width = 1, height = 1\<rparr>
   \<and> map_option (\<lambda>t'. take 4 (data t')) (growTexture 1 4 \<lparr>data = [5, 6, 7, 8], width = 1, height = 1\<rparr>)
       = Some [5, 6, 7, 8]
   \<and> map_option (\<lambda>t'. (readSlot 1 t' 6, readSlot 1 t' 1))
        (writeSlots 1 \<lparr>data = [5, 6, 7, 8], width = 1, height = 1\<rparr> [(6, [9]), (1, [3])])
       = Some ([Some 9], [Some 3])"
proof -
  let ?t = "\<lparr>data = [5, 6, 7, 8 :: byte], width = 1, height = 1\<rparr>"
  have n: "data ?t \<noteq> []" by simp
  have h: "texture_ok 1 ?t" by (simp add: texture_ok_def)
  note gp = growth_preserves_written_bytes [OF n, of 1]
  obtain t' where "growTexture 1 4 ?t = Some t'"
      "take (length [5, 6, 7, 8 :: byte]) (data t') = [5, 6, 7, 8]"
    using gp [of 4] by auto
  then have 1: "map_option (\<lambda>t'. take 4 (data t')) (growTexture 1 4 ?t) = Some [5, 6, 7, 8]"
    by (simp add: eval_nat_numeral)
  have "distinct (map fst [(6 :: nat, [9 :: byte]), (1, [3])])
        \<and> list_all (\<lambda>w. length (snd w) = 1 * 1) [(6 :: nat, [9 :: byte]), (1, [3])]"
    by simp
  then obtain u where "writeSlots 1 ?t [(6, [9]), (1, [3])] = Some u"
      "list_all (\<lambda>w. readSlot 1 u (fst w) = map Some (snd w)) [(6, [9]), (1, [3])]"
    using gp [of 0] h by blast
  then have 2: "map_option (\<lambda>t'. (readSlot 1 t' 6, readSlot 1 t' 1))
        (writeSlots 1 ?t [(6, [9]), (1, [3])]) = Some ([Some 9], [Some 3])"
    by simp
  show ?thesis using n h 1 2 by blast
qed

text \<open>
  Claim C3 says that a block written to a slot is read back from it, for every slot index,
  and that the slots \<open>s + 4\<close> and \<open>s - 4\<close> share the square of slot \<open>s\<close> in another channel.
  With a glyph size of 2 on a texture of width 1 (both powers of two) the rows of one glyph
  overlap: the column count is \<open>1 / 2\<close>, the second row starts on the second texel of the
  first, and the last texel lies outside the buffer, so that \<open>[1, 2, 3, 4]\<close> written to slot 0
  is read back as \<open>[1, 3, 3, undefined]\<close>. All the numbers of this offset computation are
  doubles, so the source computes them as they stand here. And slot 4 lies in the square after
  that of slot 0, in the same channel.
\<close>

theorem glyph_wider_than_texture_counterexample:
  "writeSlot 2 (newTexture 2 1) 0 [1, 2, 3, 4]
     = Some \<lparr>data = [1, 0, 0, 0, 3, 0, 0, 0], width = 1, height = 2\<rparr>
   \<and> readSlot 2 \<lparr>data = [1, 0, 0, 0, 3, 0, 0, 0], width = 1, height = 2\<rparr> 0
       = [Some 1, Some 3, Some 3, None]
   \<and> [Some 1, Some 3, Some 3, None] \<noteq> map Some [1, 2, 3, 4 :: byte]
   \<and> squareIndex (0 + 4) \<noteq> squareIndex 0
   \<and> channel (0 + 4) = channel 0"
proof -
  have new: "newTexture 2 1 = \<lparr>data = [0, 0, 0, 0, 0, 0, 0, 0], width = 1, height = 2\<rparr>"
    by (simp add: newTexture_def eval_nat_numeral)
  have grow: "growTexture 2 0 \<lparr>data = [0, 0, 0, 0, 0, 0, 0, 0], width = 1, height = 2\<rparr>
            = Some \<lparr>data = [0, 0, 0, 0, 0, 0, 0, 0], width = 1, height = 2\<rparr>"
    by (subst growTexture.simps) simp
  have ins: "insertGlyph 2 \<lparr>data = [0, 0, 0, 0, 0, 0, 0, 0], width = 1, height = 2\<rparr> 0 [1, 2, 3, 4]
           = \<lparr>data = [1, 0, 0, 0, 3, 0, 0, 0], width = 1, height = 2\<rparr>"
    by (simp add: insertGlyph_def writeRow_def texelIndex_def rowStartIndex_def baseStartIndex_def
        squareIndex_def channel_def cols_def js_rem_def store_def valid_index_def
        textureData_at_def upt_rec)
  have 1: "writeSlot 2 (newTexture 2 1) 0 [1, 2, 3, 4]
      = Some \<lparr>data = [1, 0, 0, 0, 3, 0, 0, 0], width = 1, height = 2\<rparr>"
    by (simp only: writeSlot_def new grow option.case ins)
  have 2: "readSlot 2 \<lparr>data = [1, 0, 0, 0, 3, 0, 0, 0], width = 1, height = 2\<rparr> 0
       = [Some 1, Some 3, Some 3, None]"
    by (simp add: readSlot_def texelIndex_def rowStartIndex_def baseStartIndex_def
        squareIndex_def channel_def cols_def js_rem_def load_def valid_index_def upt_rec)
  have 3: "[Some 1, Some 3, Some 3, None] \<noteq> map Some [1, 2, 3, 4 :: byte]" by simp
  have 4: "squareIndex (0 + 4) \<noteq> squareIndex 0" "channel (0 + 4) = channel 0"
    by (simp_all add: squareIndex_def channel_def)
  show ?thesis using 1 2 3 4 by (intro conjI)
qed

text \<open>
  Claim C3, amended. Slot \<open>s\<close> lies in square \<open>s div 4\<close>, channel \<open>s mod 4\<close>; slot \<open>s + 4\<close> lies in
  the next square and the same channel, and the slots that share the square of \<open>s\<close> are told
  apart by their channel. When the texture width is a positive multiple of the glyph size,
  the texel \<open>(y, x)\<close> of slot \<open>s\<close> is byte \<open>channel\<close> of the pixel at row \<open>y\<close>, column \<open>x\<close> of that
  square, the squares tiling the width from left to right and then downwards. Writing a block
  of squared \<open>sdfGlyphSize\<close> bytes to slot \<open>s\<close> and reading the slot gives the block back, the
  write leaves every other slot as it was, and no later write to other slots (the other
  channels of the same square included) changes what slot \<open>s\<close> holds.
\<close>

theorem slot_roundtrip:
  assumes ok: "texture_ok g t" and len: "length td = g * g"
  shows "squareIndex s = s div 4 \<and> channel s = s mod 4
       \<and> squareIndex (s + 4) = squareIndex s + 1 \<and> channel (s + 4) = channel s
       \<and> (\<forall>s'. squareIndex s' = squareIndex s \<longrightarrow> (channel s' = channel s \<longleftrightarrow> s' = s))
       \<and> (\<forall>y x. texelIndex g t s y x
             = of_nat (4 * (((squareIndex s div (width t div g)) * g + y) * width t
                             + (squareIndex s mod (width t div g)) * g + x) + channel s))
       \<and> (\<exists>t'. writeSlot g t s td = Some t'
             \<and> readSlot g t' s = map Some td
             \<and> (\<forall>s'. s' \<noteq> s \<longrightarrow> s' < slotCapacity g t \<longrightarrow> readSlot g t' s' = readSlot g t s')
             \<and> (\<forall>ws. s \<notin> fst ` set ws \<longrightarrow>
                   (\<exists>t''. writeSlots g t' ws = Some t'' \<and> readSlot g t'' s = map Some td)))"
proof -
  have g: "0 < g" and w: "0 < width t" and gw: "g dvd width t"
    using ok by (simp_all add: texture_ok_def)
  have idx: "squareIndex s = s div 4" "channel s = s mod 4"
    by (simp_all add: squareIndex_def channel_def)
  have four: "squareIndex (s + 4) = squareIndex s + 1" "channel (s + 4) = channel s"
    by (simp_all add: squareIndex_def channel_def)
  have chan: "\<forall>s'. squareIndex s' = squareIndex s \<longrightarrow> (channel s' = channel s \<longleftrightarrow> s' = s)"
    unfolding squareIndex_def channel_def by (metis div_mult_mod_eq)
  have addr: "\<forall>y x. texelIndex g t s y x
             = of_nat (4 * (((squareIndex s div (width t div g)) * g + y) * width t
                             + (squareIndex s mod (width t div g)) * g + x) + channel s)"
    by (simp only: texelIndex_nat [OF gw g w] slotAddress_pixel) simp
  obtain t' where t': "writeSlot g t s td = Some t'" "texture_ok g t'" "s < slotCapacity g t'"
      "readSlot g t' s = map (\<lambda>j. Some (textureData_at td j)) [0..<g * g]"
      "\<And>s'. s' \<noteq> s \<Longrightarrow> s' < slotCapacity g t \<Longrightarrow> readSlot g t' s' = readSlot g t s'"
    using writeSlot_effect [OF ok, of s td] by metis
  have same: "readSlot g t' s = map Some td" using t'(4) textureData_full [OF len] by simp
  have later: "\<forall>ws. s \<notin> fst ` set ws \<longrightarrow>
                   (\<exists>t''. writeSlots g t' ws = Some t'' \<and> readSlot g t'' s = map Some td)"
    using writeSlots_keeps [OF t'(2,3)] same by simp
  have wr: "\<exists>t'. writeSlot g t s td = Some t'
             \<and> readSlot g t' s = map Some td
             \<and> (\<forall>s'. s' \<noteq> s \<longrightarrow> s' < slotCapacity g t \<longrightarrow> readSlot g t' s' = readSlot g t s')
             \<and> (\<forall>ws. s \<notin> fst ` set ws \<longrightarrow>
                   (\<exists>t''. writeSlots g t' ws = Some t'' \<and> readSlot g t'' s = map Some td))"
    using t'(1) same t'(5) later by blast
  show ?thesis using idx four chan addr wr by (intro conjI)
qed

theorem slot_roundtrip_witness:
  "texture_ok 1 \<lparr>data = [0, 0, 0, 0], width = 1, height = 1\<rparr> \<and> length [9 :: byte] = 1 * 1
   \<and> map_option (\<lambda>t'. readSlot 1 t' 2) (writeSlot 1 \<lparr>data = [0, 0, 0, 0], width = 1, height = 1\<rparr> 2 [9])
       = Some [Some 9]"
proof -
  have h: "texture_ok 1 \<lparr>data = [0, 0, 0, 0], width = 1, height = 1\<rparr>"
    by (simp add: texture_ok_def)
  have l: "length [9 :: byte] = 1 * 1" by simp
  obtain t' where "writeSlot 1 \<lparr>data = [0, 0, 0, 0], width = 1, height = 1\<rparr> 2 [9] = Some t'"
      "readSlot 1 t' 2 = map Some [9]"
    using slot_roundtrip [OF h l, of 2] by blast
  then show ?thesis using h by simp
qed



text \<open>
  Claim C6 says that the height stays at \<open>sdfGlyphSize\<close> and the width doubles. Line 241
  doubles the height, and nothing assigns the width: with glyph size 1 and texture width 1,
  writing slot 4 leaves a texture of width 1 and height 2.
\<close>

theorem height_not_fixed_counterexample:
  "height (newTexture 1 1) = 1 \<and> width (newTexture 1 1) = 1
   \<and> map_option height (writeSlot 1 (newTexture 1 1) 4 [7]) = Some 2
   \<and> map_option width (writeSlot 1 (newTexture 1 1) 4 [7]) = Some 1"
proof -
  have "length (data (newTexture 1 1)) < (4 + 1) * 1 * 1" by (simp add: newTexture_def)
  then have 1: "growTexture 1 4 (newTexture 1 1) = growTexture 1 4 (biggerTexture (newTexture 1 1))"
    by (subst growTexture.simps) simp
  have "\<not> length (data (biggerTexture (newTexture 1 1))) < (4 + 1) * 1 * 1"
    by (simp add: newTexture_def biggerTexture_length)
  then have 2: "growTexture 1 4 (biggerTexture (newTexture 1 1)) = Some (biggerTexture (newTexture 1 1))"
    by (subst growTexture.simps) simp
  have 3: "writeSlot 1 (newTexture 1 1) 4 [7]
         = Some (insertGlyph 1 (biggerTexture (newTexture 1 1)) 4 [7])"
    by (simp only: writeSlot_def 1 2 option.case)
  show ?thesis
    by (simp only: 3 option.map insertGlyph_width insertGlyph_height
        biggerTexture_width biggerTexture_height) (simp add: newTexture_def)
qed

text \<open>
  Claim C6, amended. For a positive glyph size and a positive texture width, the width of
  the texture is the configured \<open>textureWidth\<close> for the whole lifetime of the atlas; the height
  starts at \<open>sdfGlyphSize\<close> and is doubled (once or more) exactly by the writes whose slot
  index is at or beyond the capacity.
\<close>

theorem width_fixed_height_doubles:
  assumes "0 < g" "0 < w"
  shows "width (newTexture g w) = w \<and> height (newTexture g w) = g
       \<and> (\<forall>ws. \<exists>t k. writeSlots g (newTexture g w) ws = Some t
              \<and> width t = w \<and> height t = g * 2 ^ k
              \<and> (\<forall>s td. \<exists>t' n. writeSlot g t s td = Some t'
                     \<and> width t' = w \<and> height t' = height t * 2 ^ n
                     \<and> (n = 0 \<longleftrightarrow> s < slotCapacity g t)))"
proof -
  have new: "data (newTexture g w) \<noteq> []" using assms by (simp add: newTexture_def)
  have "\<exists>t k. writeSlots g (newTexture g w) ws = Some t
              \<and> width t = w \<and> height t = g * 2 ^ k
              \<and> (\<forall>s td. \<exists>t' n. writeSlot g t s td = Some t'
                     \<and> width t' = w \<and> height t' = height t * 2 ^ n
                     \<and> (n = 0 \<longleftrightarrow> s < slotCapacity g t))" for ws
  proof -
    obtain t k where t: "writeSlots g (newTexture g w) ws = Some t"
        "width t = width (newTexture g w)" "height t = height (newTexture g w) * 2 ^ k"
        "length (data t) = length (data (newTexture g w)) * 2 ^ k"
      using writeSlots_dims [OF new, of g ws] by blast
    have wt: "width t = w" and ht: "height t = g * 2 ^ k"
      using t(2,3) by (simp_all add: newTexture_def)
    have ne: "data t \<noteq> []" using t(4) new by (cases "data t") auto
    have "\<exists>t' n. writeSlot g t s td = Some t' \<and> width t' = w \<and> height t' = height t * 2 ^ n
                 \<and> (n = 0 \<longleftrightarrow> s < slotCapacity g t)" for s td
      using writeSlot_dims [OF ne, of g s td] holds_slot_iff [OF assms(1), of s t] wt by metis
    then show ?thesis using t(1) wt ht by blast
  qed
  then show ?thesis by (simp add: newTexture_def)
qed

theorem width_fixed_height_doubles_witness:
  "0 < (1::nat) \<and> 0 < (1::nat)
   \<and> width (newTexture 1 1) = 1 \<and> height (newTexture 1 1) = 1
   \<and> map_option width (writeSlots 1 (newTexture 1 1) [(4, [7])]) = Some 1"
proof -
  note t = width_fixed_height_doubles [of 1 1]
  have w: "width (newTexture 1 1) = 1 \<and> height (newTexture 1 1) = 1" using t by simp
  obtain u where "writeSlots 1 (newTexture 1 1) [(4, [7])] = Some u" "width u = 1"
    using t by (metis zero_less_one)
  then show ?thesis using w by simp
qed

section \<open>Claims about glyph allocation\<close>

text \<open>
  Claim C1. Over the lifetime of an atlas, whatever the number of requests and of occurrences
  of a glyph id in them, the entries created (and queued for rasterization) are exactly the
  entries the atlas holds for the distinct glyph ids, one each; every request gets, for each
  occurrence of a glyph id, the slot index of that one entry; a further call for a glyph id
  the atlas knows returns its entry, creates nothing and queues nothing; and later requests
  leave the entry as it is. The typesetter is taken to supply glyph data for the ids it
  returns.
\<close>

theorem one_entry_per_glyph:
  assumes "list_all dataComplete results"
  shows "map Some (createdEntries cfg g (newAtlas g w) results)
           = map (glyphs (finalAtlas cfg g (newAtlas g w) results)) (firstSeen (requestedIds results))
       \<and> distinct (createdEntries cfg g (newAtlas g w) results)
       \<and> length (createdEntries cfg g (newAtlas g w) results) = card (set (requestedIds results))
       \<and> map (\<lambda>out. map Some (atlasIndices (fst out))) (snd (atlasLifetime cfg g (newAtlas g w) results))
           = map (\<lambda>r. map (\<lambda>x. map_option atlasIndex (glyphs (finalAtlas cfg g (newAtlas g w) results) x))
                          (glyphIds r)) results
       \<and> (\<forall>gid e. glyphs (finalAtlas cfg g (newAtlas g w) results) gid = Some e \<longrightarrow>
             (\<forall>cfg' g' gd. allocateSlot cfg' g' gd (finalAtlas cfg g (newAtlas g w) results) gid
                            = Inr (finalAtlas cfg g (newAtlas g w) results, e, False)))
       \<and> (\<forall>later. list_all dataComplete later \<longrightarrow>
             (\<forall>x\<in>set (requestedIds results).
                 glyphs (finalAtlas cfg g (newAtlas g w) (results @ later)) x
                   = glyphs (finalAtlas cfg g (newAtlas g w) results) x))"
proof -
  let ?created = "createdEntries cfg g (newAtlas g w) results"
  let ?ids = "firstSeen (requestedIds results)"
  have idx: "map atlasIndex ?created = [0..<length ?ids]" by (rule created_indices [OF assms])
  have "distinct (map atlasIndex ?created)" by (simp add: idx)
  then have d: "distinct ?created" by (simp add: distinct_map)
  have "length ?created = length ?ids" using idx by (metis length_map length_upt minus_nat.diff_0)
  moreover have "distinct ?ids" by (simp add: firstSeen_def firstSeenFrom_distinct)
  moreover have "set ?ids = set (requestedIds results)" by (simp add: firstSeen_def firstSeenFrom_set)
  ultimately have len: "length ?created = card (set (requestedIds results))"
    by (metis distinct_card)
  show ?thesis
    using lifetime_from_new(2,3) [OF assms] d len entries_persist [OF assms]
    by (simp add: allocateSlot_known)
qed

theorem one_entry_per_glyph_witness:
  "list_all dataComplete [typeset_AB, typeset_BA]
   \<and> length (createdEntries CONFIG_initial 64 (newAtlas 64 2048) [typeset_AB, typeset_BA]) = 2"
proof -
  have "length (createdEntries CONFIG_initial 64 (newAtlas 64 2048) [typeset_AB, typeset_BA])
      = card (set (requestedIds [typeset_AB, typeset_BA]))"
    using one_entry_per_glyph [OF AB_complete, of CONFIG_initial 64 2048] by blast
  moreover have "card (set (requestedIds [typeset_AB, typeset_BA])) = 2"
    by (simp add: requestedIds_def typeset_AB_def typeset_BA_def card_insert_if)
  ultimately show ?thesis using AB_complete by simp
qed

text \<open>
  Claim C4. After any sequence of requests on a fresh atlas, the distinct glyph ids hold, in
  the order of their first occurrence, the slot indices \<open>0, 1, \<dots>, N - 1\<close>, the counter is
  \<open>N\<close>, and any further requests leave these indices as they are.
\<close>

theorem slots_follow_first_seen_order:
  assumes "list_all dataComplete results"
  shows "count (finalAtlas cfg g (newAtlas g w) results) = length (firstSeen (requestedIds results))
       \<and> dom (glyphs (finalAtlas cfg g (newAtlas g w) results)) = set (requestedIds results)
       \<and> map (\<lambda>x. map_option atlasIndex (glyphs (finalAtlas cfg g (newAtlas g w) results) x))
             (firstSeen (requestedIds results))
           = map Some [0..<length (firstSeen (requestedIds results))]
       \<and> (\<forall>later. list_all dataComplete later \<longrightarrow>
             map (\<lambda>x. map_option atlasIndex (glyphs (finalAtlas cfg g (newAtlas g w) (results @ later)) x))
                 (firstSeen (requestedIds results))
               = map Some [0..<length (firstSeen (requestedIds results))])"
proof -
  let ?fin = "finalAtlas cfg g (newAtlas g w) results"
  let ?ids = "firstSeen (requestedIds results)"
  have al: "allocated ?fin ?ids" by (rule lifetime_from_new(1) [OF assms])
  have set_ids: "set ?ids = set (requestedIds results)" by (simp add: firstSeen_def firstSeenFrom_set)
  have 1: "count ?fin = length ?ids" using al by (simp add: allocated_def)
  have 2: "dom (glyphs ?fin) = set (requestedIds results)" using al set_ids by (simp add: allocated_def)
  have 3: "map (\<lambda>x. map_option atlasIndex (glyphs ?fin x)) ?ids = map Some [0..<length ?ids]"
    by (rule allocated_indices [OF al])
  have 4: "map (\<lambda>x. map_option atlasIndex (glyphs (finalAtlas cfg g (newAtlas g w) (results @ later)) x)) ?ids
         = map Some [0..<length ?ids]" if "list_all dataComplete later" for later
  proof -
    have "\<forall>x\<in>set ?ids. glyphs (finalAtlas cfg g (newAtlas g w) (results @ later)) x = glyphs ?fin x"
      using entries_persist [OF assms that] set_ids by blast
    then have "map (\<lambda>x. map_option atlasIndex (glyphs (finalAtlas cfg g (newAtlas g w) (results @ later)) x)) ?ids
             = map (\<lambda>x. map_option atlasIndex (glyphs ?fin x)) ?ids"
      by (simp cong: map_cong)
    then show ?thesis using 3 by simp
  qed
  show ?thesis using 1 2 3 4 by blast
qed

theorem slots_follow_first_seen_order_witness:
  "list_all dataComplete [typeset_AB, typeset_BA]
   \<and> map (\<lambda>x. map_option atlasIndex
                 (glyphs (finalAtlas CONFIG_initial 64 (newAtlas 64 2048) [typeset_AB, typeset_BA]) x))
         [36, 37]
       = [Some 0, Some 1]"
proof -
  have ids: "firstSeen (requestedIds [typeset_AB, typeset_BA]) = [36, 37]"
    by (simp add: requestedIds_def typeset_AB_def typeset_BA_def firstSeen_def)
  have "map (\<lambda>x. map_option atlasIndex
                 (glyphs (finalAtlas CONFIG_initial 64 (newAtlas 64 2048) [typeset_AB, typeset_BA]) x))
          (firstSeen (requestedIds [typeset_AB, typeset_BA]))
       = map Some [0..<length (firstSeen (requestedIds [typeset_AB, typeset_BA]))]"
    using slots_follow_first_seen_order [OF AB_complete, of CONFIG_initial 64 2048] by blast
  then show ?thesis using AB_complete unfolding ids by (simp add: upt_rec)
qed

text \<open>
  Claim C10 says that the \<open>maxDist\<close> handed to the SDF generator is the larger extent of the
  glyph's \<open>pathBounds\<close> plus twice \<open>fontUnitsMargin\<close>. The view box is built by four rounded
  operations (lines 193--198) and its sides are measured by two more (line 224), so the two
  numbers differ in general. With a glyph size of 64, a margin of \<open>0.1\<close> and the path bounds
  \<open>[0, 0, 76, 10]\<close> the margin is 8.19375 and \<open>maxDist\<close> is 92.38749999999999, while 76 plus
  twice the margin is 92.3875, whether it is computed exactly or in doubles.
\<close>

theorem maxDistance_rounds_counterexample:
  "allocateSlot config_tenth 64 glyphs_wide (newAtlas 64 2048) 36
     = Inr ((newAtlas 64 2048)\<lparr>count := 1, glyphs := [36 \<mapsto> entry_wide]\<rparr>, entry_wide, True)
   \<and> allocationFinite config_tenth 64 (0, 0, 76, 10)
   \<and> fontUnitsMargin config_tenth 64 (0, 0, 76, 10) = 4612671180845875 / 562949953421312
   \<and> maxDistance (sdfTaskOf config_tenth 64 entry_wide) = 1625298088178483 / 17592186044416
   \<and> max (76 - 0) (10 - 0) + 2 * fontUnitsMargin config_tenth 64 (0, 0, 76, 10)
       = 26004769410855731 / 281474976710656
   \<and> js_add (max (js_sub 76 0) (js_sub 10 0)) (js_mul 2 (fontUnitsMargin config_tenth 64 (0, 0, 76, 10)))
       = 6501192352713933 / 70368744177664
   \<and> maxDistance (sdfTaskOf config_tenth 64 entry_wide)
       \<noteq> max (76 - 0) (10 - 0) + 2 * fontUnitsMargin config_tenth 64 (0, 0, 76, 10)
   \<and> maxDistance (sdfTaskOf config_tenth 64 entry_wide)
       \<noteq> js_add (max (js_sub 76 0) (js_sub 10 0))
                  (js_mul 2 (fontUnitsMargin config_tenth 64 (0, 0, 76, 10)))"
proof -
  have d: "js_add (max (js_sub 76 0) (js_sub 10 0)) (js_mul 2 (4612671180845875 / 562949953421312))
         = 6501192352713933 / 70368744177664"
    by (simp add: js_add_def js_sub_def js_mul_def round64_wide)
  show ?thesis
    by (simp only: allocateSlot_wide allocationFinite_wide fontUnitsMargin_wide maxDistance_wide d)
      simp
qed

text \<open>
  Claim C10, amended. For a glyph entry created by the allocation, with a positive glyph size
  and all the doubles of the allocation finite, the \<open>maxDist\<close> handed to the SDF generator is
  the larger of the width and the height of the entry's \<open>sdfViewBox\<close>, each a rounded
  difference, and the view box is the glyph's \<open>pathBounds\<close> widened by \<open>fontUnitsMargin\<close> on
  every side, each coordinate rounded. \<open>maxDist\<close> differs from the larger extent of the
  \<open>pathBounds\<close> plus twice \<open>fontUnitsMargin\<close> by the rounding of three operations: by at most
  \<open>3 / 2 ^ 53\<close> times the larger of \<open>\<bar>maxX + margin\<bar> + \<bar>minX - margin\<bar>\<close> and
  \<open>\<bar>maxY + margin\<bar> + \<bar>minY - margin\<bar>\<close>, plus \<open>4 / 2 ^ 1075\<close>.
\<close>

theorem maxDistance_of_new_glyph:
  assumes "0 < g" and "allocateSlot cfg g gd atl gid = Inr (atl', e, True)"
    and "gd gid = Some d" and "allocationFinite cfg g (pathBounds d)"
  shows "sdfViewBox e = expandBounds (pathBounds d) (fontUnitsMargin cfg g (pathBounds d))
       \<and> maxDistance (sdfTaskOf cfg g e)
           = (case sdfViewBox e of (v0, v1, v2, v3) \<Rightarrow> max (js_sub v2 v0) (js_sub v3 v1))
       \<and> (case pathBounds d of (b0, b1, b2, b3) \<Rightarrow>
             \<bar>maxDistance (sdfTaskOf cfg g e)
                - (max (b2 - b0) (b3 - b1) + 2 * fontUnitsMargin cfg g (pathBounds d))\<bar>
               \<le> 3 / 2 ^ 53
                     * max (\<bar>b2 + fontUnitsMargin cfg g (pathBounds d)\<bar>
                              + \<bar>b0 - fontUnitsMargin cfg g (pathBounds d)\<bar>)
                           (\<bar>b3 + fontUnitsMargin cfg g (pathBounds d)\<bar>
                              + \<bar>b1 - fontUnitsMargin cfg g (pathBounds d)\<bar>)
                   + 4 / 2 ^ 1075)"
proof -
  let ?m = "fontUnitsMargin cfg g (pathBounds d)"
  obtain b0 b1 b2 b3 where b: "pathBounds d = (b0, b1, b2, b3)" by (metis prod_cases4)
  have none: "glyphs atl gid = None"
    using assms(2) by (cases "glyphs atl gid") (simp_all add: allocateSlot_def)
  have e: "sdfViewBox e = expandBounds (pathBounds d) ?m"
    using assms(2,3) none by (auto simp: allocateSlot_def Let_def)
  have 1: "maxDistance (sdfTaskOf cfg g e)
           = (case sdfViewBox e of (v0, v1, v2, v3) \<Rightarrow> max (js_sub v2 v0) (js_sub v3 v1))"
    by (simp add: sdfTaskOf_def maxDist_def)
  let ?x = "js_sub (js_add b2 ?m) (js_sub b0 ?m)" and ?y = "js_sub (js_add b3 ?m) (js_sub b1 ?m)"
  let ?sx = "\<bar>b2 + ?m\<bar> + \<bar>b0 - ?m\<bar>" and ?sy = "\<bar>b3 + ?m\<bar> + \<bar>b1 - ?m\<bar>"
  have md: "maxDistance (sdfTaskOf cfg g e) = max ?x ?y"
    by (simp only: 1 e) (simp add: b expandBounds_def)
  have ex: "\<bar>?x - ((b2 - b0) + 2 * ?m)\<bar> \<le> 3 / 2 ^ 53 * ?sx + 4 / 2 ^ 1075"
    by (rule rounded_difference)
  have ey: "\<bar>?y - ((b3 - b1) + 2 * ?m)\<bar> \<le> 3 / 2 ^ 53 * ?sy + 4 / 2 ^ 1075"
    by (rule rounded_difference)
  have k: "(0 :: rat) \<le> 3 / 2 ^ 53" by simp
  have mx: "3 / 2 ^ 53 * ?sx \<le> 3 / 2 ^ 53 * max ?sx ?sy"
    by (rule mult_left_mono [OF max.cobounded1 k])
  have my: "3 / 2 ^ 53 * ?sy \<le> 3 / 2 ^ 53 * max ?sx ?sy"
    by (rule mult_left_mono [OF max.cobounded2 k])
  have bnd_x: "\<bar>?x - ((b2 - b0) + 2 * ?m)\<bar> \<le> 3 / 2 ^ 53 * max ?sx ?sy + 4 / 2 ^ 1075"
    by (rule le_add_mono [OF ex mx])
  have bnd_y: "\<bar>?y - ((b3 - b1) + 2 * ?m)\<bar> \<le> 3 / 2 ^ 53 * max ?sx ?sy + 4 / 2 ^ 1075"
    by (rule le_add_mono [OF ey my])
  have "max (b2 - b0) (b3 - b1) + 2 * ?m = max ((b2 - b0) + 2 * ?m) ((b3 - b1) + 2 * ?m)"
    by (simp add: max_def)
  then have "\<bar>max ?x ?y - (max (b2 - b0) (b3 - b1) + 2 * ?m)\<bar>
           \<le> max \<bar>?x - ((b2 - b0) + 2 * ?m)\<bar> \<bar>?y - ((b3 - b1) + 2 * ?m)\<bar>"
    by (simp only: max_difference)
  also have "\<dots> \<le> 3 / 2 ^ 53 * max ?sx ?sy + 4 / 2 ^ 1075"
    using bnd_x bnd_y by (rule max.boundedI)
  finally have 3: "\<bar>maxDistance (sdfTaskOf cfg g e) - (max (b2 - b0) (b3 - b1) + 2 * ?m)\<bar>
                 \<le> 3 / 2 ^ 53 * max ?sx ?sy + 4 / 2 ^ 1075"
    by (simp only: md)
  have "case pathBounds d of (b0, b1, b2, b3) \<Rightarrow>
             \<bar>maxDistance (sdfTaskOf cfg g e) - (max (b2 - b0) (b3 - b1) + 2 * ?m)\<bar>
               \<le> 3 / 2 ^ 53 * max (\<bar>b2 + ?m\<bar> + \<bar>b0 - ?m\<bar>) (\<bar>b3 + ?m\<bar> + \<bar>b1 - ?m\<bar>)
                   + 4 / 2 ^ 1075"
    using 3 by (simp only: b prod.case)
  then show ?thesis using e 1 by blast
qed

theorem maxDistance_of_new_glyph_witness:
  "0 < (64 :: nat)
   \<and> allocateSlot config_tenth 64 glyphs_wide (newAtlas 64 2048) 36
       = Inr ((newAtlas 64 2048)\<lparr>count := 1, glyphs := [36 \<mapsto> entry_wide]\<rparr>, entry_wide, True)
   \<and> glyphs_wide 36 = Some \<lparr>glyphPath = ''A'', pathBounds = (0, 0, 76, 10)\<rparr>
   \<and> allocationFinite config_tenth 64 (pathBounds \<lparr>glyphPath = ''A'', pathBounds = (0, 0, 76, 10)\<rparr>)
   \<and> \<bar>1625298088178483 / 17592186044416 - 26004769410855731 / 281474976710656 :: rat\<bar>
       \<le> 3 / 2 ^ 53 * (\<bar>76 + 4612671180845875 / 562949953421312\<bar>
                          + \<bar>0 - 4612671180845875 / 562949953421312\<bar>) + 4 / 2 ^ 1075"
  (is "?p \<and> ?a \<and> ?d \<and> ?f \<and> ?c")
proof -
  have p: ?p by simp
  have d: ?d by (simp add: glyphs_wide_def)
  have f: ?f by (simp add: allocationFinite_wide)
  note t = maxDistance_of_new_glyph [OF p allocateSlot_wide d f]
  have "\<bar>maxDistance (sdfTaskOf config_tenth 64 entry_wide)
          - (max (76 - 0) (10 - 0) + 2 * fontUnitsMargin config_tenth 64 (0, 0, 76, 10))\<bar>
        \<le> 3 / 2 ^ 53
             * max (\<bar>76 + fontUnitsMargin config_tenth 64 (0, 0, 76, 10)\<bar>
                      + \<bar>0 - fontUnitsMargin config_tenth 64 (0, 0, 76, 10)\<bar>)
                   (\<bar>10 + fontUnitsMargin config_tenth 64 (0, 0, 76, 10)\<bar>
                      + \<bar>0 - fontUnitsMargin config_tenth 64 (0, 0, 76, 10)\<bar>)
            + 4 / 2 ^ 1075"
    using t [THEN conjunct2, THEN conjunct2] by (simp only: glyphDatum.select_convs prod.case)
  then have c: ?c by (simp only: maxDistance_wide fontUnitsMargin_wide) simp
  show ?thesis using p allocateSlot_wide d f c by blast
qed

section \<open>Claims about the request and the configuration\<close>

text \<open>
  Claim C7 gives the margin of the scenario as \<open>100/32 * (1/16*32 + 0.5)\<close>, about 16.56. The
  source computes this very expression (lines 189--190), and its value is 7.8125, not 16.56;
  every intermediate result is a double, so that nothing is rounded.
\<close>

theorem margin_is_not_16_56_counterexample:
  "fontUnitsMargin (CONFIG (configureTextBuilder initialModule config_32_128)) 32 (0, 0, 100, 100)
     = 100 / 32 * (1 / 16 * 32 + 1 / 2)
   \<and> \<not> \<bar>fontUnitsMargin (CONFIG (configureTextBuilder initialModule config_32_128)) 32 (0, 0, 100, 100)
          - 1656 / 100\<bar> \<le> 1 / 100"
proof -
  have "sdfMargin (CONFIG (configureTextBuilder initialModule config_32_128)) = 1 / 16"
    by (simp add: config_32_128_CONFIG CONFIG_initial_def)
  then show ?thesis by (simp add: fontUnitsMargin_AA)
qed

text \<open>
  Claim C7, amended. In the scenario the request completes with exactly one call of the SDF
  generator, for the glyph of \<open>A\<close>; the margin added on each side of \<open>[0, 0, 100, 100]\<close> is
  \<open>100/32 * (1/16*32 + 1/2) = 125/16\<close>, that is 7.8125; both occurrences get slot 0.
\<close>

theorem scenario_AA:
  assumes ts: "typesetInWorker e
                 (normalizeArgs e (CONFIG (configureTextBuilder initialModule config_32_128)) args_AA)
               = typeset_AA"
  shows "\<exists>m' info. getTextRenderInfo e (configureTextBuilder initialModule config_32_128) args_AA
                     = Some (m', Inr info)
           \<and> sdfCalls m' = [task_A]
           \<and> taskViewBox task_A = expandBounds (0, 0, 100, 100) (125 / 16)
           \<and> fontUnitsMargin (CONFIG (configureTextBuilder initialModule config_32_128)) 32 (0, 0, 100, 100)
               = 100 / 32 * (1 / 16 * 32 + 1 / 2)
           \<and> 100 / 32 * (1 / 16 * 32 + 1 / 2) = (125 / 16 :: rat)
           \<and> glyphAtlasIndices info = [0, 0]
           \<and> length (infoGlyphBounds info) = 8"
proof -
  let ?m = "configureTextBuilder initialModule config_32_128"
  let ?cfg = "CONFIG_initial\<lparr>sdfGlyphSize := 32, textureWidth := 128\<rparr>"
  let ?p = "normalizeArgs e (CONFIG ?m) args_AA"
  let ?e = "\<lparr>path = ''A'', atlasIndex = 0,
             sdfViewBox = (0 - 125 / 16, 0 - 125 / 16, 100 + 125 / 16, 100 + 125 / 16 :: rat)\<rparr>"
  let ?st = "\<lparr>loopAtlas = (newAtlas 32 128)\<lparr>count := 1, glyphs := [36 \<mapsto> ?e]\<rparr>,
         neededSDFs = [?e],
         glyphBounds = [Some (- (5 / 64)), Some (- (5 / 64)), Some (69 / 64), Some (69 / 64),
                        Some (443 / 64), Some (- (5 / 64)), Some (517 / 64), Some (69 / 64)],
         positionsIdx = 4,
         atlasIndices = [0, 0]\<rparr>"
  have cfg: "CONFIG ?m = ?cfg" by (rule config_32_128_CONFIG)
  have "paramSdfGlyphSize (normalizeArgs e ?cfg args_AA) = 32"
    by (simp add: normalizeArgs_def args_AA_def)
  then have size: "paramSdfGlyphSize ?p = 32" by (simp only: cfg)
  have tw: "textureWidth (CONFIG ?m) = 128" by (simp add: cfg)
  have empty: "atlases ?m k = None" for k
    by (simp add: configureTextBuilder_def initialModule_def)
  have calls: "sdfCalls ?m = []" by (simp add: configureTextBuilder_def initialModule_def)
  obtain m1 where issue: "issueRequest e ?m args_AA = (m1, ?p, newAtlas 32 128)"
    using issueRequest_new_key [OF empty, of e args_AA] by (simp add: size tw)
  have loop: "requestLoop (CONFIG ?m) (paramSdfGlyphSize ?p) (newAtlas 32 128) (typesetInWorker e ?p)
            = (?st, None)"
    unfolding ts size unfolding cfg by (rule requestLoop_AA)
  have ok: "texture_ok 32 (sdfTexture (loopAtlas ?st))"
    using texture_ok_new [of 32 128] by (simp add: newAtlas_def)
  obtain atl' where copy: "copyResults (paramSdfGlyphSize ?p) (loopAtlas ?st)
            (map (\<lambda>glyphInfo. (atlasIndex glyphInfo,
                    generateSDFInWorker e (sdfTaskOf (CONFIG ?m) (paramSdfGlyphSize ?p) glyphInfo)))
               (neededSDFs ?st)) = Some atl'"
    using copyResults_ok [OF ok] unfolding size by blast
  have task: "map (sdfTaskOf (CONFIG ?m) (paramSdfGlyphSize ?p)) (neededSDFs ?st) = [task_A]"
    by (simp add: cfg normalizeArgs_def args_AA_def sdfTaskOf_def task_A_def maxDist_AA
        CONFIG_initial_def)
  obtain m' info where r: "getTextRenderInfo e ?m args_AA = Some (m', Inr info)"
      "sdfCalls m' = sdfCalls ?m @ map (sdfTaskOf (CONFIG ?m) (paramSdfGlyphSize ?p)) (neededSDFs ?st)"
      "infoGlyphBounds info = glyphBounds ?st" "glyphAtlasIndices info = atlasIndices ?st"
    using getTextRenderInfo_completes [OF issue loop copy] by blast
  have "sdfCalls m' = [task_A]" using r(2) calls task by simp
  moreover have "taskViewBox task_A = expandBounds (0, 0, 100, 100) (125 / 16)"
    by (simp add: task_A_def expandBounds_AA)
  moreover have "fontUnitsMargin (CONFIG ?m) 32 (0, 0, 100, 100) = 100 / 32 * (1 / 16 * 32 + 1 / 2)"
    by (simp add: cfg fontUnitsMargin_AA CONFIG_initial_def)
  moreover have "100 / 32 * (1 / 16 * 32 + 1 / 2) = (125 / 16 :: rat)" by simp
  moreover have "glyphAtlasIndices info = [0, 0]" using r(4) by simp
  moreover have "length (infoGlyphBounds info) = 8" using r(3) by simp
  ultimately show ?thesis using r(1) by blast
qed

theorem scenario_AA_witness:
  "typesetInWorker env_example
     (normalizeArgs env_example (CONFIG (configureTextBuilder initialModule config_32_128)) args_AA)
     = typeset_AA
   \<and> map_option (\<lambda>r. sdfCalls (fst r))
        (getTextRenderInfo env_example (configureTextBuilder initialModule config_32_128) args_AA)
       = Some [task_A]"
proof -
  have h: "typesetInWorker env_example
     (normalizeArgs env_example (CONFIG (configureTextBuilder initialModule config_32_128)) args_AA)
     = typeset_AA"
    by (simp add: env_example_def normalizeArgs_def args_AA_def)
  obtain m' info where
    "getTextRenderInfo env_example (configureTextBuilder initialModule config_32_128) args_AA
       = Some (m', Inr info)" "sdfCalls m' = [task_A]"
    using scenario_AA [OF h] by blast
  then show ?thesis using h by simp
qed

text \<open>
  Claim C8. When the typesetter answers an empty text with no glyphs, the request for an
  empty text reaches the callback without an exception, with no glyph bounds and no atlas
  indices, and the SDF generator is not called.
\<close>

theorem empty_text_completes:
  assumes "typesetsEmptyText e" "argText a = []"
  shows "\<exists>m' info. getTextRenderInfo e m a = Some (m', Inr info)
           \<and> infoGlyphBounds info = [] \<and> glyphAtlasIndices info = []
           \<and> sdfCalls m' = sdfCalls m \<and> warnings m' = warnings m"
proof -
  obtain m1 params atl where issue: "issueRequest e m a = (m1, params, atl)"
    by (metis prod_cases3)
  let ?st = "\<lparr>loopAtlas = atl, neededSDFs = [], glyphBounds = [], positionsIdx = 0,
              atlasIndices = []\<rparr>"
  have "paramText params = []"
    using assms(2) issueRequest_state(5) [OF issue] by (simp add: normalizeArgs_def)
  then have ids: "glyphIds (typesetInWorker e params) = []"
    using assms(1) by (simp add: typesetsEmptyText_def)
  have loop: "requestLoop (CONFIG m) (paramSdfGlyphSize params) atl (typesetInWorker e params)
            = (?st, None)"
    by (simp add: requestLoop_def ids)
  have copy: "copyResults (paramSdfGlyphSize params) (loopAtlas ?st)
            (map (\<lambda>glyphInfo. (atlasIndex glyphInfo,
                    generateSDFInWorker e (sdfTaskOf (CONFIG m) (paramSdfGlyphSize params) glyphInfo)))
               (neededSDFs ?st)) = Some atl"
    by (simp add: copyResults_Nil)
  show ?thesis
    using getTextRenderInfo_completes [OF issue loop copy] by auto
qed

theorem empty_text_completes_witness:
  "typesetsEmptyText env_example
   \<and> argText args_empty = []
   \<and> map_option (\<lambda>r. (sdfCalls (fst r), isl (snd r)))
        (getTextRenderInfo env_example initialModule args_empty)
       = Some ([], False)"
proof -
  have h: "typesetsEmptyText env_example" by (simp add: typesetsEmptyText_def env_example_def)
  have t: "argText args_empty = []" by (simp add: args_empty_def)
  obtain m' info where
    "getTextRenderInfo env_example initialModule args_empty = Some (m', Inr info)"
    "sdfCalls m' = sdfCalls initialModule"
    using empty_text_completes [OF h t, of initialModule] by blast
  then show ?thesis using h t by (simp add: initialModule_def)
qed

text \<open>
  Claim C9. While no request has been issued, every call of \<open>configureTextBuilder\<close> overwrites
  in \<open>CONFIG\<close> exactly the keys it supplies (so a sequence of calls folds \<open>assign\<close> over the
  initial value) and changes nothing else. Every call of \<open>getTextRenderInfo\<close>, in whatever
  state, sets \<open>hasRequested\<close> as it is issued and leaves \<open>CONFIG\<close> alone, also when it has run to
  its callback. Once \<open>hasRequested\<close> is set, a call of \<open>configureTextBuilder\<close> only appends the
  warning, and whatever calls follow, configuring or requesting, \<open>hasRequested\<close> stays set and
  \<open>CONFIG\<close> stays as it is. Hence in every sequence of calls that configures, then requests,
  then goes on in any way, \<open>CONFIG\<close> ends as the calls before the first request left it, and
  each call of \<open>configureTextBuilder\<close> after the first request has added one warning.
\<close>

theorem configure_only_before_first_request:
  "(\<not> hasRequested m \<longrightarrow>
      performAll m (map Configure cs) = Some (m\<lparr>CONFIG := foldl assign (CONFIG m) cs\<rparr>)
      \<and> (\<forall>c. configureTextBuilder m c = m\<lparr>CONFIG := assign (CONFIG m) c\<rparr>
             \<and> defaultFontURL (assign (CONFIG m) c)
                 = (case opt_defaultFontURL c of Some v \<Rightarrow> v | None \<Rightarrow> defaultFontURL (CONFIG m))
             \<and> sdfGlyphSize (assign (CONFIG m) c)
                 = (case opt_sdfGlyphSize c of Some v \<Rightarrow> v | None \<Rightarrow> sdfGlyphSize (CONFIG m))
             \<and> sdfMargin (assign (CONFIG m) c)
                 = (case opt_sdfMargin c of Some v \<Rightarrow> v | None \<Rightarrow> sdfMargin (CONFIG m))
             \<and> sdfExponent (assign (CONFIG m) c)
                 = (case opt_sdfExponent c of Some v \<Rightarrow> v | None \<Rightarrow> sdfExponent (CONFIG m))
             \<and> textureWidth (assign (CONFIG m) c)
                 = (case opt_textureWidth c of Some v \<Rightarrow> v | None \<Rightarrow> textureWidth (CONFIG m)))
      \<and> (\<forall>first later m'.
             \<not> isConfigure first \<and> performAll m (map Configure cs @ first # later) = Some m' \<longrightarrow>
             hasRequested m' \<and> CONFIG m' = foldl assign (CONFIG m) cs
             \<and> warnings m' = warnings m @ replicate (length (filter isConfigure later)) ignoredWarning))
   \<and> (\<forall>e a. hasRequested (fst (issueRequest e m a)) \<and> CONFIG (fst (issueRequest e m a)) = CONFIG m)
   \<and> (\<forall>e a m' r. getTextRenderInfo e m a = Some (m', r) \<longrightarrow> hasRequested m' \<and> CONFIG m' = CONFIG m)
   \<and> (hasRequested m \<longrightarrow>
        (\<forall>c. configureTextBuilder m c = m\<lparr>warnings := warnings m @ [ignoredWarning]\<rparr>)
        \<and> (\<forall>calls m'. performAll m calls = Some m' \<longrightarrow>
               hasRequested m' \<and> CONFIG m' = CONFIG m
               \<and> warnings m' = warnings m @ replicate (length (filter isConfigure calls)) ignoredWarning))"
  (is "(_ \<longrightarrow> ?A \<and> ?B \<and> ?C) \<and> ?D \<and> ?E \<and> (_ \<longrightarrow> ?F \<and> ?G)")
proof -
  have before: "?A \<and> ?B \<and> ?C" if n: "\<not> hasRequested m"
  proof -
    let ?m0 = "foldl configureTextBuilder m cs"
    have m0: "?m0 = m\<lparr>CONFIG := foldl assign (CONFIG m) cs\<rparr>"
      by (rule configures_before_request [OF n])
    have A: ?A by (simp only: performAll_configures m0)
    have 2: "configureTextBuilder m c = m\<lparr>CONFIG := assign (CONFIG m) c\<rparr>" for c
      using n by (simp add: configureTextBuilder_def)
    have B: ?B by (simp only: 2 assign_fields) simp
    have "hasRequested m' \<and> CONFIG m' = foldl assign (CONFIG m) cs
          \<and> warnings m' = warnings m @ replicate (length (filter isConfigure later)) ignoredWarning"
      if f: "\<not> isConfigure first"
        and run: "performAll m (map Configure cs @ first # later) = Some m'" for first later m'
    proof -
      have "performAll ?m0 (first # later) = Some m'"
        using run by (simp add: performAll_append performAll_configures)
      then obtain m1 where m1: "perform ?m0 first = Some m1" "performAll m1 later = Some m'"
        by (auto split: option.splits)
      have s: "hasRequested m1" "CONFIG m1 = CONFIG ?m0" "warnings m1 = warnings ?m0"
        using perform_request [OF f m1(1)] by simp_all
      have "CONFIG ?m0 = foldl assign (CONFIG m) cs" "warnings ?m0 = warnings m"
        by (simp_all add: m0)
      then show ?thesis using performAll_after [OF s(1) m1(2)] s(2,3) by simp
    qed
    then have C: ?C by blast
    show ?thesis using A B C by (intro conjI)
  qed
  have D: ?D
  proof (intro allI)
    fix e a
    obtain m1 params atl where issue: "issueRequest e m a = (m1, params, atl)"
      by (metis prod_cases3)
    show "hasRequested (fst (issueRequest e m a)) \<and> CONFIG (fst (issueRequest e m a)) = CONFIG m"
      using issueRequest_state(1,2) [OF issue] by (simp add: issue)
  qed
  have E: ?E using getTextRenderInfo_hasRequested by blast
  have after: "?F \<and> ?G" if h: "hasRequested m"
  proof -
    have F: ?F using configure_after [OF h] by blast
    have G: ?G using performAll_after [OF h] by blast
    show ?thesis using F G by (intro conjI)
  qed
  have P: "\<not> hasRequested m \<longrightarrow> ?A \<and> ?B \<and> ?C" using before by (rule impI)
  have Q: "hasRequested m \<longrightarrow> ?F \<and> ?G" using after by (rule impI)
  show ?thesis using P D E Q by (rule conjI [OF _ conjI [OF _ conjI]])
qed

theorem configure_only_before_first_request_witness:
  "\<not> hasRequested initialModule
   \<and> \<not> isConfigure (Request env_example args_empty)
   \<and> map_option CONFIG
        (performAll initialModule
           (map Configure [config_32_128]
              @ Request env_example args_empty
                # [Configure config_margin, Issue env_example args_empty, Configure config_margin]))
       = Some (foldl assign (CONFIG initialModule) [config_32_128])
   \<and> map_option warnings
        (performAll initialModule
           (map Configure [config_32_128]
              @ Request env_example args_empty
                # [Configure config_margin, Issue env_example args_empty, Configure config_margin]))
       = Some [ignoredWarning, ignoredWarning]
   \<and> sdfMargin (foldl assign (CONFIG initialModule) [config_32_128]) = 1 / 16
   \<and> hasRequested (fst (issueRequest env_example initialModule args_empty))
   \<and> configureTextBuilder (fst (issueRequest env_example initialModule args_empty)) config_margin
       = (fst (issueRequest env_example initialModule args_empty))
           \<lparr>warnings := warnings (fst (issueRequest env_example initialModule args_empty))
              @ [ignoredWarning]\<rparr>"
proof -
  let ?later = "[Configure config_margin, Issue env_example args_empty, Configure config_margin]"
  let ?run = "map Configure [config_32_128] @ Request env_example args_empty # ?later"
  let ?m0 = "configureTextBuilder initialModule config_32_128"
  have n: "\<not> hasRequested initialModule" by (simp add: initialModule_def)
  have f: "\<not> isConfigure (Request env_example args_empty)" by simp
  have "glyphIds (typesetInWorker env_example (normalizeArgs env_example (CONFIG ?m0) args_empty)) = []"
    by (simp add: env_example_def normalizeArgs_def args_empty_def)
  then obtain m1 info where m1: "getTextRenderInfo env_example ?m0 args_empty = Some (m1, Inr info)"
    using getTextRenderInfo_empty by blast
  obtain m' where run: "performAll initialModule ?run = Some m'"
    by (simp add: m1)
  note t = configure_only_before_first_request [of initialModule "[config_32_128]"]
  have "hasRequested m' \<and> CONFIG m' = foldl assign (CONFIG initialModule) [config_32_128]
        \<and> warnings m' = warnings initialModule
             @ replicate (length (filter isConfigure ?later)) ignoredWarning"
    using t n f run by blast
  then have c: "CONFIG m' = foldl assign (CONFIG initialModule) [config_32_128]"
    and w: "warnings m' = [ignoredWarning, ignoredWarning]"
    by (simp_all add: initialModule_def)
  have s: "sdfMargin (foldl assign (CONFIG initialModule) [config_32_128]) = 1 / 16"
    by (simp add: assign_def initialModule_def config_32_128_def CONFIG_initial_def)
  let ?m1 = "fst (issueRequest env_example initialModule args_empty)"
  have h: "hasRequested ?m1"
    using configure_only_before_first_request [of initialModule "[]"] by blast
  have i: "configureTextBuilder ?m1 config_margin = ?m1\<lparr>warnings := warnings ?m1 @ [ignoredWarning]\<rparr>"
    using configure_only_before_first_request [of ?m1 "[]"] h by blast
  have r: "map_option CONFIG (performAll initialModule ?run)
             = Some (foldl assign (CONFIG initialModule) [config_32_128])"
      "map_option warnings (performAll initialModule ?run) = Some [ignoredWarning, ignoredWarning]"
    by (simp_all only: run option.map c w)
  show ?thesis using n f r s h i by (intro conjI)
qed

end
